theory Spec2Isabelle
  imports Main "HOL-Library.Word"
begin

unbundle bit_operations_syntax

section \<open>Machine integers and hashes\<close>

text \<open>
  Go's \<open>int\<close> and \<open>uint\<close> are 64-bit on the platforms the node targets: both are
  \<open>64 word\<close>, read with \<open>sint\<close> where the source treats the value as signed and with
  \<open>unat\<close> where it treats it as unsigned. \<open>uint32\<close> is \<open>32 word\<close>, a byte is \<open>8 word\<close>.
\<close>

type_synonym byte = "8 word"

text \<open>
  Modelled from the spec: the package \<open>hash\<close> is outside the source files. \<open>hash.Hash\<close>
  is a 32-byte array, modelled as its bytes under a constructor (every hash the code
  builds has 32 bytes); \<open>hash.ZeroHash\<close>, like the zero value \<open>hash.Hash{}\<close>, is the
  canonical zero hash.
\<close>

datatype hash = Hash "byte list"

fun Bytes :: "hash \<Rightarrow> byte list" where
  "Bytes (Hash bs) = bs"

definition HashSize :: nat where
  "HashSize = 32"

definition ZeroHash :: hash where
  "ZeroHash = Hash (replicate HashSize 0)"

section \<open>blockindex.go\<close>

text \<open>
  Modelled from the spec: \<open>blockNode\<close> and \<open>blockStatus\<close> are declared outside the source
  files. A node has a hash, a link to its parent, a height and a status bitset; the
  bitset is a byte.

  A \<open>*blockNode\<close> is an address into a store of node objects; two nodes are the same
  node when their addresses are equal, which is what \<open>n == tip\<close> compares in
  \<open>removeChainTip\<close>. A nil pointer is \<open>None\<close>, and the methods take a non-nil node.
  The \<open>RWMutex\<close> has no counterpart in a sequential model, and the \<open>db\<close> and \<open>params\<close>
  fields of the index are never written.
\<close>

type_synonym blockStatus = "8 word"

type_synonym node_ref = nat

record blockNode =
  hash :: hash
  parent :: "node_ref option"
  height :: "64 word"
  status :: blockStatus

type_synonym node_store = "node_ref \<Rightarrow> blockNode"

record blockIndex =
  index :: "hash \<rightharpoonup> node_ref"
  chainTips :: "64 word \<rightharpoonup> node_ref list"

definition newBlockIndex :: blockIndex where
  "newBlockIndex = \<lparr>index = Map.empty, chainTips = Map.empty\<rparr>"

definition lookupNode :: "blockIndex \<Rightarrow> hash \<Rightarrow> node_ref option" where
  "lookupNode bi h = index bi h"

text \<open>Reading a missing key of a Go map gives the nil slice, which has no elements.\<close>

definition tipsAt :: "blockIndex \<Rightarrow> 64 word \<Rightarrow> node_ref list" where
  "tipsAt bi h = (case chainTips bi h of None \<Rightarrow> [] | Some nodes \<Rightarrow> nodes)"

definition addChainTip :: "node_store \<Rightarrow> blockIndex \<Rightarrow> node_ref \<Rightarrow> blockIndex" where
  "addChainTip st bi tip =
     bi\<lparr>chainTips := (chainTips bi)(height (st tip) \<mapsto> tipsAt bi (height (st tip)) @ [tip])\<rparr>"

text \<open>
  The loop of \<open>removeChainTip\<close>: at the first position holding \<open>tip\<close> the tail is copied
  one place to the left and the slice is cut by one; the loop then stops.
\<close>

fun removeTip :: "node_ref \<Rightarrow> node_ref list \<Rightarrow> node_ref list" where
  "removeTip tip [] = []"
| "removeTip tip (n # nodes) = (if n = tip then nodes else n # removeTip tip nodes)"

definition removeChainTip :: "node_store \<Rightarrow> blockIndex \<Rightarrow> node_ref \<Rightarrow> blockIndex" where
  "removeChainTip st bi tip =
     (let nodes = removeTip tip (tipsAt bi (height (st tip)))
      in if length nodes = 0
         then bi\<lparr>chainTips := (chainTips bi)(height (st tip) := None)\<rparr>
         else bi\<lparr>chainTips := (chainTips bi)(height (st tip) \<mapsto> nodes)\<rparr>)"

definition addNode :: "node_store \<Rightarrow> blockIndex \<Rightarrow> node_ref \<Rightarrow> blockIndex" where
  "addNode st bi node =
     (let bi1 = bi\<lparr>index := (index bi)(hash (st node) \<mapsto> node)\<rparr>;
          bi2 = addChainTip st bi1 node
      in case parent (st node) of
           None \<Rightarrow> bi2
         | Some p \<Rightarrow> removeChainTip st bi2 p)"

text \<open>A sequence of \<open>addNode\<close> calls, first to last.\<close>

definition addNodes :: "node_store \<Rightarrow> blockIndex \<Rightarrow> node_ref list \<Rightarrow> blockIndex" where
  "addNodes st bi nodes = foldl (addNode st) bi nodes"

definition HaveBlock :: "blockIndex \<Rightarrow> hash \<Rightarrow> bool" where
  "HaveBlock bi h = (index bi h \<noteq> None)"

definition NodeStatus :: "node_store \<Rightarrow> node_ref \<Rightarrow> blockStatus" where
  "NodeStatus st node = status (st node)"

text \<open>
  \<open>SetStatusFlags\<close> and \<open>UnsetStatusFlags\<close> write through the node pointer; they take
  and return the node store together with the index.
\<close>

definition SetStatusFlags ::
  "node_store \<times> blockIndex \<Rightarrow> node_ref \<Rightarrow> blockStatus \<Rightarrow> node_store \<times> blockIndex" where
  "SetStatusFlags s node flags =
     (case s of (st, bi) \<Rightarrow>
        (st(node := (st node)\<lparr>status := status (st node) OR flags\<rparr>), bi))"

definition UnsetStatusFlags ::
  "node_store \<times> blockIndex \<Rightarrow> node_ref \<Rightarrow> blockStatus \<Rightarrow> node_store \<times> blockIndex" where
  "UnsetStatusFlags s node flags =
     (case s of (st, bi) \<Rightarrow>
        (st(node := (st node)\<lparr>status := status (st node) AND NOT flags\<rparr>), bi))"

text \<open>The tips the specification describes: added nodes of a height with no added child.\<close>

definition childless :: "node_store \<Rightarrow> node_ref list \<Rightarrow> 64 word \<Rightarrow> node_ref set" where
  "childless st nodes h =
     {n \<in> set nodes. height (st n) = h \<and> (\<forall>m \<in> set nodes. parent (st m) \<noteq> Some n)}"

text \<open>
  The calls the claim speaks of: no hash is added twice, and a parent is added before its
  child.
\<close>

definition parents_first :: "node_store \<Rightarrow> node_ref list \<Rightarrow> bool" where
  "parents_first st nodes \<longleftrightarrow>
     (\<forall>i < length nodes. \<forall>p. parent (st (nodes ! i)) = Some p \<longrightarrow> p \<in> set (take i nodes))"

text \<open>Two concrete node stores: one node value everywhere, and a small tree.\<close>

definition st0 :: node_store where
  "st0 = (\<lambda>_. \<lparr>hash = ZeroHash, parent = None, height = 0, status = 5\<rparr>)"

text \<open>
  Node 0 is a root of height 0, nodes 1 and 2 are its children at height 1, and node 3
  is a child of node 1 at height 2.
\<close>

definition st1 :: node_store where
  "st1 n = \<lparr>hash = Hash [of_nat n],
            parent = (if n = 0 then None else if n \<le> 2 then Some 0 else Some 1),
            height = (if n = 0 then 0 else if n \<le> 2 then 1 else 2),
            status = 0\<rparr>"

section \<open>Transactions and blocks\<close>

text \<open>
  Modelled from the spec: the package \<open>types\<close> is outside the source files. The records
  carry what the index and the Merkle code read: a transaction's inputs (each with the hash of its previous
  output and its signature script) and the rest of its content as bytes; the \<open>types.Tx\<close>
  wrapper with its cached hash (what \<open>tx.Hash()\<close> returns); a transaction's position
  in the serialised block; and a block with its hash, its transactions and the result of
  \<open>TxLoc()\<close>, which may be an error.
\<close>

record TxInput =
  PreviousOutHash :: hash
  SignScript :: "byte list"

record Transaction =
  TxIn :: "TxInput list"
  Payload :: "byte list"

record types_Tx =
  Tx :: Transaction
  TxHashCached :: hash

record TxLoc =
  TxStart :: "64 word"
  TxLen :: "64 word"

section \<open>txindex.go\<close>

text \<open>
  Modelled from the spec: the package \<open>database\<close> is outside the source files. A bucket
  of the key-value store maps byte strings to byte strings; \<open>Get\<close> of a missing key is
  nil (\<open>None\<close>), while a key stored with an empty value gives an empty slice. \<open>Put\<close> and
  \<open>Delete\<close> on a bucket of a writable transaction are taken to succeed. A database
  transaction is the three buckets of the index, and a \<open>BlockRegion\<close> is a block hash
  with an offset and a length.
\<close>

type_synonym bucket = "byte list \<rightharpoonup> byte list"

record dbTx =
  txIndexBucket :: bucket
  idByHashIndexBucket :: bucket
  hashByIDIndexBucket :: bucket

datatype ErrorCode = ErrCorruption

text \<open>
  The errors of the index: \<open>errNoBlockIDEntry\<close>; a \<open>database.Error\<close> with its code, whose
  description names a transaction hash and, in one case, the error that caused it; the
  \<open>fmt.Errorf\<close> of \<open>dbRemoveTxIndexEntry\<close>, which names the hash; an error passed on
  from \<open>block.TxLoc()\<close>; and the run-time panic of an index out of range.
\<close>

datatype index_error =
    errNoBlockIDEntry
  | DatabaseError ErrorCode hash "index_error option"
  | RemoveNonExistent hash
  | TxLocFailed
  | IndexOutOfRange

record SerializedBlock =
  BlockHash :: hash
  Transactions :: "types_Tx list"
  BlockTxLoc :: "index_error + TxLoc list"

record BlockRegion =
  RegionHash :: hash
  Offset :: "32 word"
  Len :: "32 word"

text \<open>
  Modelled from the spec: \<open>byteOrder\<close> and \<open>txEntrySize\<close> are declared outside the
  source files; the specification asks for one fixed byte order, names big-endian, and
  gives a location entry 12 bytes. \<open>PutUint32\<close> writes
  four bytes, most significant first, and \<open>Uint32\<close> reads the first four bytes of a slice
  (the source panics on a shorter one; every call below passes four bytes).
\<close>

definition PutUint32 :: "32 word \<Rightarrow> byte list" where
  "PutUint32 v = [ucast (drop_bit 24 v), ucast (drop_bit 16 v), ucast (drop_bit 8 v), ucast v]"

definition Uint32 :: "byte list \<Rightarrow> 32 word" where
  "Uint32 b = foldl (\<lambda>acc x. push_bit 8 acc OR ucast x) 0 (take 4 b)"

definition txEntrySize :: nat where
  "txEntrySize = 12"

definition dbPutBlockIDIndexEntry :: "dbTx \<Rightarrow> hash \<Rightarrow> 32 word \<Rightarrow> dbTx" where
  "dbPutBlockIDIndexEntry tx h ident =
     (let serializedID = PutUint32 ident;
          tx1 = tx\<lparr>idByHashIndexBucket := (idByHashIndexBucket tx)(Bytes h \<mapsto> serializedID)\<rparr>
      in tx1\<lparr>hashByIDIndexBucket := (hashByIDIndexBucket tx1)(serializedID \<mapsto> Bytes h)\<rparr>)"

definition dbRemoveBlockIDIndexEntry :: "dbTx \<Rightarrow> hash \<Rightarrow> dbTx" where
  "dbRemoveBlockIDIndexEntry tx h =
     (case idByHashIndexBucket tx (Bytes h) of
        None \<Rightarrow> tx
      | Some serializedID \<Rightarrow>
          (let tx1 = tx\<lparr>idByHashIndexBucket := (idByHashIndexBucket tx)(Bytes h := None)\<rparr>
           in tx1\<lparr>hashByIDIndexBucket := (hashByIDIndexBucket tx1)(serializedID := None)\<rparr>))"

text \<open>\<open>copy(hash[:], hashBytes)\<close> fills a zeroed 32-byte array from the front.\<close>

definition dbFetchBlockHashBySerializedID :: "dbTx \<Rightarrow> byte list \<Rightarrow> index_error + hash" where
  "dbFetchBlockHashBySerializedID tx serializedID =
     (case hashByIDIndexBucket tx serializedID of
        None \<Rightarrow> Inl errNoBlockIDEntry
      | Some hashBytes \<Rightarrow> Inr (Hash (take HashSize (hashBytes @ replicate HashSize 0))))"


definition putTxIndexEntry :: "32 word \<Rightarrow> TxLoc \<Rightarrow> byte list" where
  "putTxIndexEntry blockID txLoc =
     PutUint32 blockID @ PutUint32 (ucast (TxStart txLoc)) @ PutUint32 (ucast (TxLen txLoc))"

definition dbPutTxIndexEntry :: "dbTx \<Rightarrow> hash \<Rightarrow> byte list \<Rightarrow> dbTx" where
  "dbPutTxIndexEntry tx txHash serializedData =
     tx\<lparr>txIndexBucket := (txIndexBucket tx)(Bytes txHash \<mapsto> serializedData)\<rparr>"

definition dbFetchTxIndexEntry :: "dbTx \<Rightarrow> hash \<Rightarrow> index_error + BlockRegion option" where
  "dbFetchTxIndexEntry tx txHash =
     (let serializedData = (case txIndexBucket tx (Bytes txHash) of None \<Rightarrow> [] | Some d \<Rightarrow> d)
      in if length serializedData = 0 then Inr None
         else if length serializedData < 12
           then Inl (DatabaseError ErrCorruption txHash None)
         else (case dbFetchBlockHashBySerializedID tx (take 4 serializedData) of
                 Inl err \<Rightarrow> Inl (DatabaseError ErrCorruption txHash (Some err))
               | Inr h \<Rightarrow>
                   Inr (Some \<lparr>RegionHash = h,
                              Offset = Uint32 (take 4 (drop 4 serializedData)),
                              Len = Uint32 (take 4 (drop 8 serializedData))\<rparr>)))"

text \<open>
  The closure \<open>addEntries\<close> of \<open>dbAddTxIndexEntries\<close>: entry \<open>i\<close> is serialised into
  bytes \<open>12 i\<close> to \<open>12 i + 12\<close> of one buffer and that slice is stored under the hash of
  transaction \<open>i\<close>; \<open>txLocs[i]\<close> panics when there are fewer locations than
  transactions.
\<close>

fun addEntries :: "dbTx \<Rightarrow> types_Tx list \<Rightarrow> TxLoc list \<Rightarrow> 32 word \<Rightarrow> index_error + dbTx" where
  "addEntries tx [] txLocs blockID = Inr tx"
| "addEntries tx (t # txns) [] blockID = Inl IndexOutOfRange"
| "addEntries tx (t # txns) (loc # txLocs) blockID =
     addEntries (dbPutTxIndexEntry tx (TxHashCached t) (putTxIndexEntry blockID loc))
       txns txLocs blockID"

definition dbAddTxIndexEntries :: "dbTx \<Rightarrow> SerializedBlock \<Rightarrow> 32 word \<Rightarrow> index_error + dbTx" where
  "dbAddTxIndexEntries tx block blockID =
     (case BlockTxLoc block of
        Inl err \<Rightarrow> Inl err
      | Inr txLocs \<Rightarrow> addEntries tx (Transactions block) txLocs blockID)"

definition dbRemoveTxIndexEntry :: "dbTx \<Rightarrow> hash \<Rightarrow> index_error + dbTx" where
  "dbRemoveTxIndexEntry tx txHash =
     (let serializedData = (case txIndexBucket tx (Bytes txHash) of None \<Rightarrow> [] | Some d \<Rightarrow> d)
      in if length serializedData = 0 then Inl (RemoveNonExistent txHash)
         else Inr (tx\<lparr>txIndexBucket := (txIndexBucket tx)(Bytes txHash := None)\<rparr>))"

fun removeEntries :: "dbTx \<Rightarrow> types_Tx list \<Rightarrow> index_error + dbTx" where
  "removeEntries tx [] = Inr tx"
| "removeEntries tx (t # txns) =
     (case dbRemoveTxIndexEntry tx (TxHashCached t) of
        Inl err \<Rightarrow> Inl err
      | Inr tx1 \<Rightarrow> removeEntries tx1 txns)"

definition dbRemoveTxIndexEntries :: "dbTx \<Rightarrow> SerializedBlock \<Rightarrow> index_error + dbTx" where
  "dbRemoveTxIndexEntries tx block = removeEntries tx (Transactions block)"

text \<open>
  \<open>TxIndex\<close> holds the database handle and the counter; the state of the database is
  passed along with it.
\<close>

record TxIndex =
  curBlockID :: "32 word"

definition NewTxIndex :: TxIndex where
  "NewTxIndex = \<lparr>curBlockID = 0\<rparr>"




definition ConnectBlock :: "TxIndex \<times> dbTx \<Rightarrow> SerializedBlock \<Rightarrow> index_error + TxIndex \<times> dbTx" where
  "ConnectBlock s block =
     (case s of (idx, tx) \<Rightarrow>
        (let newBlockID = curBlockID idx + 1
         in case dbAddTxIndexEntries tx block newBlockID of
              Inl err \<Rightarrow> Inl err
            | Inr tx1 \<Rightarrow>
                Inr (idx\<lparr>curBlockID := newBlockID\<rparr>,
                     dbPutBlockIDIndexEntry tx1 (BlockHash block) newBlockID)))"

definition DisconnectBlock :: "TxIndex \<times> dbTx \<Rightarrow> SerializedBlock \<Rightarrow> index_error + TxIndex \<times> dbTx" where
  "DisconnectBlock s block =
     (case s of (idx, tx) \<Rightarrow>
        (case dbRemoveTxIndexEntries tx block of
           Inl err \<Rightarrow> Inl err
         | Inr tx1 \<Rightarrow>
             Inr (idx\<lparr>curBlockID := curBlockID idx - 1\<rparr>,
                  dbRemoveBlockIDIndexEntry tx1 (BlockHash block))))"

text \<open>\<open>TxBlockRegion\<close> runs the lookup in a read-only view of the database.\<close>

definition TxBlockRegion :: "dbTx \<Rightarrow> hash \<Rightarrow> index_error + BlockRegion option" where
  "TxBlockRegion tx h = dbFetchTxIndexEntry tx h"

text \<open>Concrete databases, transactions and blocks.\<close>

definition emptyTx :: dbTx where
  "emptyTx = \<lparr>txIndexBucket = Map.empty, idByHashIndexBucket = Map.empty,
              hashByIDIndexBucket = Map.empty\<rparr>"

definition h1 :: hash where "h1 = Hash (replicate 32 1)"

text \<open>
  The key of a transaction in the bucket of locations, and what it is for a key to have
  a stored location entry: \<open>dbRemoveTxIndexEntry\<close> tests \<open>len(serializedData) == 0\<close>.
\<close>

definition txKey :: "types_Tx \<Rightarrow> byte list" where
  "txKey t = Bytes (TxHashCached t)"

definition stored :: "dbTx \<Rightarrow> byte list \<Rightarrow> bool" where
  "stored tx k \<longleftrightarrow> (case txIndexBucket tx k of None \<Rightarrow> False | Some d \<Rightarrow> d \<noteq> [])"

definition loc0 :: TxLoc where
  "loc0 = \<lparr>TxStart = 80, TxLen = 200\<rparr>"

definition t0 :: types_Tx where
  "t0 = \<lparr>Tx = \<lparr>TxIn = [], Payload = []\<rparr>, TxHashCached = h1\<rparr>"

definition blk0 :: SerializedBlock where
  "blk0 = \<lparr>BlockHash = Hash (replicate 32 2), Transactions = [t0], BlockTxLoc = Inr [loc0]\<rparr>"

definition blkDup :: SerializedBlock where
  "blkDup = \<lparr>BlockHash = Hash (replicate 32 2), Transactions = [t0, t0],
             BlockTxLoc = Inr [loc0, loc0]\<rparr>"

definition txStored :: dbTx where
  "txStored = emptyTx\<lparr>txIndexBucket := [Bytes h1 \<mapsto> putTxIndexEntry 1 loc0]\<rparr>"




section \<open>merkle.go: the next power of two\<close>

text \<open>
  \<open>nextPowerOfTwo\<close>. The source computes the exponent as
  \<open>uint(math.Log2(float64(n))) + 1\<close>. \<open>math.Log2\<close> and the conversion to \<open>float64\<close>
  belong to Go's standard library, so the truncated logarithm is the parameter \<open>Log2\<close>
  (from \<open>int\<close> to \<open>uint\<close>). The shift \<open>1 << exponent\<close> on a 64-bit \<open>int\<close> loses
  the bit once \<open>exponent\<close> reaches 64, as \<open>push_bit\<close> on a word does.
\<close>

definition nextPowerOfTwo :: "(64 word \<Rightarrow> 64 word) \<Rightarrow> 64 word \<Rightarrow> 64 word" where
  "nextPowerOfTwo Log2 n =
     (if n AND (n - 1) = 0 then n
      else (let exponent = Log2 n + 1 in push_bit (unat exponent) 1))"

text \<open>
  What the standard library is expected to deliver at \<open>n\<close>: the floor of the binary
  logarithm, \<open>2 ^ e \<le> n < 2 ^ (e + 1)\<close>.
\<close>

definition Log2_floor_at :: "(64 word \<Rightarrow> 64 word) \<Rightarrow> 64 word \<Rightarrow> bool" where
  "Log2_floor_at Log2 n \<longleftrightarrow>
     2 ^ unat (Log2 n) \<le> unat n \<and> unat n < 2 ^ (unat (Log2 n) + 1)"

text \<open>An exact integer logarithm, one function that meets \<open>Log2_floor_at\<close> everywhere.\<close>

fun ilog2 :: "nat \<Rightarrow> nat" where
  "ilog2 n = (if n < 2 then 0 else Suc (ilog2 (n div 2)))"

declare ilog2.simps [simp del]

definition Log2_exact :: "64 word \<Rightarrow> 64 word" where
  "Log2_exact n = of_nat (ilog2 (unat n))"

section \<open>merkle.go: the tree\<close>

text \<open>
  The hash functions come from the packages \<open>hash\<close> and \<open>types\<close>, outside the source
  files: \<open>DoubleHashH\<close> on bytes, \<open>TxHash\<close> and \<open>TxHashFull\<close> on a transaction. They are
  fields of a record that the functions below take as a parameter.
\<close>

record hash_funs =
  DoubleHashH :: "byte list \<Rightarrow> hash"
  TxHash :: "Transaction \<Rightarrow> hash"
  TxHashFull :: "Transaction \<Rightarrow> hash"

text \<open>The run-time panics the Merkle code can raise.\<close>

datatype panic = PanicMakeSlice | PanicIndex | PanicNilPointer

text \<open>A 32-byte array filled from the front by \<open>copy\<close>.\<close>

definition array32 :: "byte list \<Rightarrow> byte list" where
  "array32 bs = take HashSize (bs @ replicate HashSize 0)"

definition HashMerkleBranches :: "hash_funs \<Rightarrow> hash \<Rightarrow> hash \<Rightarrow> hash" where
  "HashMerkleBranches hf left right =
     DoubleHashH hf (array32 (Bytes left) @ array32 (Bytes right))"

text \<open>The leaf stored for transaction \<open>i\<close>: the three cases of the first loop.\<close>

definition leafHash :: "hash_funs \<Rightarrow> bool \<Rightarrow> nat \<Rightarrow> types_Tx \<Rightarrow> hash" where
  "leafHash hf witness i tx =
     (if witness \<and> i = 0 then ZeroHash
      else if witness then TxHashFull hf (Tx tx)
      else TxHash hf (Tx tx))"

text \<open>
  The first loop of \<open>BuildMerkleTreeStore\<close>, \<open>for i, tx := range transactions\<close>; the
  store \<open>merkles[i] = ...\<close> panics when \<open>i\<close> is not an index of the array.
\<close>

fun populate ::
  "hash_funs \<Rightarrow> bool \<Rightarrow> nat \<Rightarrow> types_Tx list \<Rightarrow> hash option list \<Rightarrow> panic + hash option list" where
  "populate hf witness i [] merkles = Inr merkles"
| "populate hf witness i (tx # txs) merkles =
     (if i < length merkles
      then populate hf witness (Suc i) txs (merkles[i := Some (leafHash hf witness i tx)])
      else Inl PanicIndex)"

text \<open>
  The second loop, \<open>for i := 0; i < arraySize-1; i += 2\<close>, with \<open>offset\<close> incremented
  at the end of each round. The indices are Go \<open>int\<close>s that stay below \<open>arraySize\<close>,
  so they do not wrap; every access checks its index.
\<close>

definition inRange :: "int \<Rightarrow> 'a list \<Rightarrow> bool" where
  "inRange i xs \<longleftrightarrow> 0 \<le> i \<and> i < int (length xs)"

function buildLevels ::
  "hash_funs \<Rightarrow> int \<Rightarrow> int \<Rightarrow> int \<Rightarrow> hash option list \<Rightarrow> panic + hash option list" where
  "buildLevels hf arraySize i offset merkles =
     (if i < arraySize - 1 then
        (if \<not> inRange i merkles then Inl PanicIndex
         else case merkles ! nat i of
           None \<Rightarrow>
             (if \<not> inRange offset merkles then Inl PanicIndex
              else buildLevels hf arraySize (i + 2) (offset + 1) (merkles[nat offset := None]))
         | Some left \<Rightarrow>
             (if \<not> inRange (i + 1) merkles then Inl PanicIndex
              else case merkles ! nat (i + 1) of
                None \<Rightarrow>
                  (if \<not> inRange offset merkles then Inl PanicIndex
                   else buildLevels hf arraySize (i + 2) (offset + 1)
                          (merkles[nat offset := Some (HashMerkleBranches hf left left)]))
              | Some right \<Rightarrow>
                  (if \<not> inRange offset merkles then Inl PanicIndex
                   else buildLevels hf arraySize (i + 2) (offset + 1)
                          (merkles[nat offset := Some (HashMerkleBranches hf left right)]))))
      else Inr merkles)"
  by pat_completeness auto
termination
  by (relation "measure (\<lambda>(hf, arraySize, i, offset, merkles). nat (arraySize - i))") auto

declare buildLevels.simps [simp del]

text \<open>
  \<open>BuildMerkleTreeStore\<close>. \<open>len(transactions)\<close> is an \<open>int\<close>; \<open>make\<close> panics on a
  negative length, and is taken to find the memory for any other.
\<close>

definition BuildMerkleTreeStore ::
  "(64 word \<Rightarrow> 64 word) \<Rightarrow> hash_funs \<Rightarrow> types_Tx list \<Rightarrow> bool \<Rightarrow> panic + hash option list" where
  "BuildMerkleTreeStore Log2 hf transactions witness =
     (if length transactions = 0 then Inr [Some ZeroHash]
      else
        (let nextPoT = nextPowerOfTwo Log2 (of_nat (length transactions));
             arraySize = nextPoT * 2 - 1
         in if sint arraySize < 0 then Inl PanicMakeSlice
            else case populate hf witness 0 transactions
                        (replicate (nat (sint arraySize)) None) of
                   Inl p \<Rightarrow> Inl p
                 | Inr merkles \<Rightarrow> buildLevels hf (sint arraySize) 0 (sint nextPoT) merkles))"

section \<open>merkle.go: the witness commitment\<close>

text \<open>
  The four errors of \<open>ValidateWitnessCommitment\<close>; the last one carries the computed and
  the embedded commitment, in the order of the message.
\<close>

datatype commitment_error =
    NoTransactions
  | NoInputs
  | NoWitnessCommitment
  | CommitmentMismatch hash hash

definition ValidateWitnessCommitment ::
  "(64 word \<Rightarrow> 64 word) \<Rightarrow> hash_funs \<Rightarrow> SerializedBlock \<Rightarrow> panic + commitment_error option" where
  "ValidateWitnessCommitment Log2 hf blk =
     (case Transactions blk of
        [] \<Rightarrow> Inr (Some NoTransactions)
      | coinbaseTx # rest \<Rightarrow>
          (case TxIn (Tx coinbaseTx) of
             [] \<Rightarrow> Inr (Some NoInputs)
           | txin # ins \<Rightarrow>
               (let witnessCommitment = PreviousOutHash txin
                in if witnessCommitment = ZeroHash then Inr (Some NoWitnessCommitment)
                   else
                     (let coinbase = SignScript txin
                      in case BuildMerkleTreeStore Log2 hf (Transactions blk) True of
                           Inl p \<Rightarrow> Inl p
                         | Inr witnessMerkleTree \<Rightarrow>
                             (if length witnessMerkleTree = 0 then Inl PanicIndex
                              else case last witnessMerkleTree of
                                None \<Rightarrow> Inl PanicNilPointer
                              | Some witnessMerkleRoot \<Rightarrow>
                                  (let computedCommitment =
                                         DoubleHashH hf (Bytes witnessMerkleRoot @ coinbase)
                                   in if computedCommitment \<noteq> witnessCommitment
                                      then Inr (Some (CommitmentMismatch computedCommitment
                                                        witnessCommitment))
                                      else Inr None))))))"

section \<open>The reference pairing\<close>

text \<open>
  The recursive pairing the specification describes: the parent of an absent left child
  is absent, the parent of a left child alone is \<open>H(left || left)\<close>, the parent of two
  children is \<open>H(left || right)\<close>; a level is paired two by two, and the root is what is
  left when a level has one node.
\<close>

fun parentHash :: "hash_funs \<Rightarrow> hash option \<Rightarrow> hash option \<Rightarrow> hash option" where
  "parentHash hf None r = None"
| "parentHash hf (Some l) None = Some (HashMerkleBranches hf l l)"
| "parentHash hf (Some l) (Some r) = Some (HashMerkleBranches hf l r)"

fun pairLevel :: "hash_funs \<Rightarrow> hash option list \<Rightarrow> hash option list" where
  "pairLevel hf (l # r # rest) = parentHash hf l r # pairLevel hf rest"
| "pairLevel hf [x] = []"
| "pairLevel hf [] = []"

function pairingRoot :: "hash_funs \<Rightarrow> hash option list \<Rightarrow> hash option" where
  "pairingRoot hf level =
     (if length level \<le> 1 then (case level of [] \<Rightarrow> None | x # xs \<Rightarrow> x)
      else pairingRoot hf (pairLevel hf level))"
  by pat_completeness auto
termination
proof (relation "measure (\<lambda>(hf, level). length level)")
  show "wf (measure (\<lambda>(hf, level). length level))" by simp
next
  fix hf :: hash_funs and level :: "hash option list"
  assume long: "\<not> length level \<le> 1"
  have "length (pairLevel hf level) = length level div 2"
    by (induction hf level rule: pairLevel.induct) simp_all
  with long show "((hf, pairLevel hf level), (hf, level)) \<in> measure (\<lambda>(hf, level). length level)"
    by simp
qed

declare pairingRoot.simps [simp del]

text \<open>The leaves of a list of transactions, and the leaves padded to \<open>P\<close> nodes.\<close>

definition leafHashes :: "hash_funs \<Rightarrow> bool \<Rightarrow> types_Tx list \<Rightarrow> hash list" where
  "leafHashes hf witness txs = map (\<lambda>(i, tx). leafHash hf witness i tx) (enumerate 0 txs)"

definition paddedLeaves :: "hash_funs \<Rightarrow> bool \<Rightarrow> types_Tx list \<Rightarrow> nat \<Rightarrow> hash option list" where
  "paddedLeaves hf witness txs P =
     map Some (leafHashes hf witness txs) @ replicate (P - length txs) None"

text \<open>
  An array that holds a level of \<open>2 ^ k\<close> nodes followed by the parents of its pairs,
  each parent written at \<open>2 ^ k + s\<close> for the pair \<open>(2 s, 2 s + 1)\<close>, ends with the
  root of the pairing of that level.
\<close>

definition linked :: "hash_funs \<Rightarrow> nat \<Rightarrow> hash option list \<Rightarrow> bool" where
  "linked hf P ms \<longleftrightarrow>
     length ms = 2 * P - 1 \<and>
     (\<forall>s. s + 1 < P \<longrightarrow> ms ! (P + s) = parentHash hf (ms ! (2 * s)) (ms ! (2 * s + 1)))"

text \<open>
  Concrete hash functions (each keeps a prefix of its input), a coinbase with one input
  that embeds the commitment \<open>c\<close>, a transaction without inputs, and a block of given
  transactions.
\<close>

definition hf0 :: hash_funs where
  "hf0 = \<lparr>DoubleHashH = (\<lambda>bs. Hash (array32 (rev bs))),
          TxHash = (\<lambda>t. Hash (array32 (Payload t))),
          TxHashFull = (\<lambda>t. Hash (array32 (1 # Payload t)))\<rparr>"

definition coinbaseTx :: "hash \<Rightarrow> types_Tx" where
  "coinbaseTx c = \<lparr>Tx = \<lparr>TxIn = [\<lparr>PreviousOutHash = c, SignScript = [9]\<rparr>], Payload = [1]\<rparr>,
                   TxHashCached = Hash (array32 [1])\<rparr>"

definition payTx :: "byte \<Rightarrow> types_Tx" where
  "payTx b = \<lparr>Tx = \<lparr>TxIn = [], Payload = [b]\<rparr>, TxHashCached = Hash (array32 [b])\<rparr>"

definition blockOf :: "types_Tx list \<Rightarrow> SerializedBlock" where
  "blockOf txs = \<lparr>BlockHash = Hash (replicate 32 2), Transactions = txs, BlockTxLoc = Inr []\<rparr>"

text \<open>
  A block of two transactions whose coinbase embeds the commitment \<open>c\<close>; its
  witness-mode root pairs the zero hash with the full hash of the second transaction.
\<close>

definition witnessRoot2 :: hash where
  "witnessRoot2 = HashMerkleBranches hf0 ZeroHash (TxHashFull hf0 (Tx (payTx 2)))"

definition goodCommitment :: hash where
  "goodCommitment = DoubleHashH hf0 (Bytes witnessRoot2 @ [9])"

section \<open>Powers of two\<close>

lemma and_pred_nat:
  fixes n :: nat
  assumes "0 < n"
  shows "(n AND (n - 1) = 0) = (\<exists>k. n = 2 ^ k)"
  using assms
proof (induction n rule: less_induct)
  case (less n)
  show ?case
  proof (cases "even n")
    case True
    then obtain q where q: "n = 2 * q" by (auto elim: evenE)
    with less.prems have q0: "0 < q" by simp
    have pred: "n - 1 = 1 + 2 * (q - 1)" using q q0 by simp
    have "n AND (n - 1) = 2 * (q AND (q - 1))"
      unfolding pred unfolding q
      by (simp add: and_nat_unfold[of "2*q"] )
    moreover have "(q AND (q - 1) = 0) = (\<exists>k. q = 2 ^ k)"
      using less.IH[of q] q q0 by simp
    moreover have "(\<exists>k. q = 2 ^ k) = (\<exists>k. n = 2 ^ k)"
    proof
      assume "\<exists>k. q = 2 ^ k"
      then obtain k where "q = 2 ^ k" ..
      then have "n = 2 ^ (Suc k)" using q by simp
      then show "\<exists>k. n = 2 ^ k" ..
    next
      assume "\<exists>k. n = 2 ^ k"
      then obtain k where k: "n = 2 ^ k" ..
      with True q0 q have "k \<noteq> 0" by (cases k) auto
      then obtain j where "k = Suc j" by (cases k) auto
      with k q have "q = 2 ^ j" by simp
      then show "\<exists>k. q = 2 ^ k" ..
    qed
    ultimately show ?thesis by simp
  next
    case False
    then obtain q where q: "n = 2 * q + 1" by (auto elim: oddE)
    have "n AND (n - 1) = 2 * q"
      unfolding q by (simp add: and_nat_unfold)
    moreover have "(\<exists>k. n = 2 ^ k) = (q = 0)"
    proof
      assume "\<exists>k. n = 2 ^ k"
      then obtain k where k: "n = 2 ^ k" ..
      with False have "k = 0" by (cases k) auto
      with k q show "q = 0" by simp
    next
      assume "q = 0"
      then have "n = 2 ^ 0" using q by simp
      then show "\<exists>k. n = 2 ^ k" ..
    qed
    ultimately show ?thesis by auto
  qed
qed


lemma unat_small_sint:
  fixes n :: "64 word"
  assumes "unat n < 2 ^ 63"
  shows "sint n = int (unat n)"
proof -
  have "int (unat n) < int (2 ^ 63)" using assms by (rule iffD2[OF of_nat_less_iff])
  then have "uint n < 2 ^ 63" unfolding uint_nat by simp
  moreover have "- (2 ^ 63) \<le> uint n"
    by (rule order_trans[of _ 0]) simp_all
  ultimately have "signed_take_bit 63 (uint n) = uint n"
    by (intro signed_take_bit_int_eq_self)
  moreover have "sint n = signed_take_bit 63 (uint n)"
    using sint_uint[of n] by simp
  ultimately show ?thesis using uint_nat[of n] by metis
qed

lemma unat_push_bit_1:
  assumes "k < 64"
  shows "unat (push_bit k (1 :: 64 word)) = 2 ^ k"
proof -
  have "(2::nat) ^ k < 2 ^ LENGTH(64)" using assms by (intro power_strict_increasing) simp_all
  then have "take_bit LENGTH(64) ((2::nat) ^ k) = 2 ^ k"
    by (rule take_bit_nat_eq_self)
  moreover have "push_bit k (1::64 word) = of_nat (2 ^ k)" by (simp add: push_bit_eq_mult)
  ultimately show ?thesis by (simp only: unat_of_nat take_bit_eq_mod)
qed

lemma and_pred_word:
  fixes n :: "64 word"
  assumes "n \<noteq> 0"
  shows "(n AND (n - 1) = 0) = (\<exists>k. unat n = 2 ^ k)"
proof -
  have pos: "0 < unat n" using assms by (simp add: unat_gt_0)
  have "(n AND (n - 1) = 0) = (unat (n AND (n - 1)) = 0)"
    by (simp add: unat_eq_0)
  also have "\<dots> = (unat n AND (unat n - 1) = 0)"
    using assms by (simp add: unsigned_and_eq unat_minus_one)
  also have "\<dots> = (\<exists>k. unat n = 2 ^ k)"
    by (rule and_pred_nat[OF pos])
  finally show ?thesis .
qed

lemma pow2_le_imp_exp_le:
  fixes a b :: nat
  assumes "(2::nat) ^ a \<le> 2 ^ b"
  shows "a \<le> b"
  using assms by (simp add: power_increasing_iff)

lemma pow2_less_imp_exp_less:
  fixes a b :: nat
  assumes "(2::nat) ^ a < 2 ^ b"
  shows "a < b"
  using assms by (simp add: power_strict_increasing_iff)

lemma nextPowerOfTwo_unat:
  fixes n :: "64 word"
  assumes pos: "0 < unat n" and le: "unat n \<le> 2 ^ 62" and lg: "Log2_floor_at Log2 n"
  shows "\<exists>k. k \<le> 62 \<and> unat (nextPowerOfTwo Log2 n) = 2 ^ k \<and> unat n \<le> 2 ^ k
           \<and> (k = 0 \<or> 2 ^ (k - 1) < unat n)"
proof (cases "n AND (n - 1) = 0")
  case True
  have n0: "n \<noteq> 0" using pos by (simp add: unat_gt_0)
  from True and_pred_word[OF n0] obtain k where k: "unat n = 2 ^ k" by auto
  have "(2::nat) ^ k \<le> 2 ^ 62" using le k by metis
  then have "k \<le> 62" by (rule pow2_le_imp_exp_le)
  moreover have "nextPowerOfTwo Log2 n = n" using True by (simp add: nextPowerOfTwo_def)
  moreover have "k = 0 \<or> (2::nat) ^ (k - 1) < 2 ^ k" by (cases k) simp_all
  ultimately show ?thesis using k by (intro exI[of _ k]) (simp only: le_refl simp_thms)
next
  case False
  have n0: "n \<noteq> 0" using pos by (simp add: unat_gt_0)
  define e where "e = unat (Log2 n)"
  from lg have lo: "2 ^ e \<le> unat n" and hi: "unat n < 2 ^ (e + 1)"
    by (simp_all add: Log2_floor_at_def e_def)
  from False and_pred_word[OF n0] have np: "\<And>k. unat n \<noteq> 2 ^ k" by auto
  from lo np[of e] have lo': "2 ^ e < unat n" by simp
  from le np[of 62] have "unat n < 2 ^ 62" by simp
  with lo' have "(2::nat) ^ e < 2 ^ 62" by (rule less_trans)
  then have e62: "e < 62" by (rule pow2_less_imp_exp_less)
  have "unat (Log2 n) + unat (1::64 word) < 2 ^ LENGTH(64)"
    using e62 unfolding e_def by simp
  then have "unat (Log2 n + 1) = unat (Log2 n) + unat (1::64 word)"
    by (simp only: unat_add_lem)
  then have ue: "unat (Log2 n + 1) = e + 1" by (simp add: e_def)
  have "nextPowerOfTwo Log2 n = push_bit (e + 1) 1"
    using False ue by (simp add: nextPowerOfTwo_def Let_def)
  moreover have "unat (push_bit (e + 1) (1::64 word)) = 2 ^ (e + 1)"
    using e62 by (intro unat_push_bit_1) simp
  ultimately have r: "unat (nextPowerOfTwo Log2 n) = 2 ^ (e + 1)" by simp
  show ?thesis
    using r e62 hi lo' by (intro exI[of _ "e + 1"]) simp
qed








section \<open>Status flags\<close>

text \<open>
  Claim C9. \<open>SetStatusFlags\<close> leaves the node with \<open>status OR flags\<close> and
  \<open>UnsetStatusFlags\<close> with \<open>status AND NOT flags\<close>; a bit outside \<open>flags\<close> keeps its
  value, every other node is untouched, the node's other fields are untouched, and the
  index is returned as it was.
\<close>

theorem StatusFlags_frame:
  "status (fst (SetStatusFlags (st, bi) node flags) node) = status (st node) OR flags
   \<and> status (fst (UnsetStatusFlags (st, bi) node flags) node) = status (st node) AND NOT flags
   \<and> (\<forall>i. \<not> bit flags i \<longrightarrow>
          bit (status (fst (SetStatusFlags (st, bi) node flags) node)) i = bit (status (st node)) i
        \<and> bit (status (fst (UnsetStatusFlags (st, bi) node flags) node)) i = bit (status (st node)) i)
   \<and> (\<forall>m. m \<noteq> node \<longrightarrow>
          fst (SetStatusFlags (st, bi) node flags) m = st m
        \<and> fst (UnsetStatusFlags (st, bi) node flags) m = st m)
   \<and> hash (fst (SetStatusFlags (st, bi) node flags) node) = hash (st node)
   \<and> parent (fst (SetStatusFlags (st, bi) node flags) node) = parent (st node)
   \<and> height (fst (SetStatusFlags (st, bi) node flags) node) = height (st node)
   \<and> hash (fst (UnsetStatusFlags (st, bi) node flags) node) = hash (st node)
   \<and> parent (fst (UnsetStatusFlags (st, bi) node flags) node) = parent (st node)
   \<and> height (fst (UnsetStatusFlags (st, bi) node flags) node) = height (st node)
   \<and> snd (SetStatusFlags (st, bi) node flags) = bi
   \<and> snd (UnsetStatusFlags (st, bi) node flags) = bi"
  by (auto simp add: SetStatusFlags_def UnsetStatusFlags_def bit_or_iff bit_and_iff bit_not_iff
      dest: bit_imp_le_length)


theorem StatusFlags_frame_witness:
  "status (fst (SetStatusFlags (st0, newBlockIndex) 0 3) 0) = 7
   \<and> status (fst (UnsetStatusFlags (st0, newBlockIndex) 0 3) 0) = 4
   \<and> \<not> bit (3 :: blockStatus) 2
   \<and> bit (status (fst (SetStatusFlags (st0, newBlockIndex) 0 3) 0)) 2
   \<and> bit (status (fst (UnsetStatusFlags (st0, newBlockIndex) 0 3) 0)) 2
   \<and> (1 :: node_ref) \<noteq> 0
   \<and> status (fst (SetStatusFlags (st0, newBlockIndex) 0 3) 1) = 5
   \<and> status (fst (UnsetStatusFlags (st0, newBlockIndex) 0 3) 1) = 5
   \<and> snd (SetStatusFlags (st0, newBlockIndex) 0 3) = newBlockIndex"
proof -
  note th = StatusFlags_frame [of st0 newBlockIndex 0 3]
  have b: "\<not> bit (3 :: blockStatus) 2" by simp
  have s: "status (st0 0) = 5" "status (st0 1) = 5" by (simp_all add: st0_def)
  have n: "(1 :: node_ref) \<noteq> 0" by simp
  from th b have "bit (status (fst (SetStatusFlags (st0, newBlockIndex) 0 3) 0)) 2 = bit (status (st0 0)) 2"
    "bit (status (fst (UnsetStatusFlags (st0, newBlockIndex) 0 3) 0)) 2 = bit (status (st0 0)) 2"
    by blast+
  moreover from th n have "fst (SetStatusFlags (st0, newBlockIndex) 0 3) 1 = st0 1"
    "fst (UnsetStatusFlags (st0, newBlockIndex) 0 3) 1 = st0 1" by blast+
  moreover from th have "status (fst (SetStatusFlags (st0, newBlockIndex) 0 3) 0) = status (st0 0) OR 3"
    "status (fst (UnsetStatusFlags (st0, newBlockIndex) 0 3) 0) = status (st0 0) AND NOT 3"
    "snd (SetStatusFlags (st0, newBlockIndex) 0 3) = newBlockIndex" by blast+
  ultimately show ?thesis using b s by simp
qed

section \<open>Chain tips\<close>

lemma removeTip_remove1: "removeTip tip nodes = remove1 tip nodes"
  by (induction nodes) auto

lemma tipsAt_addChainTip:
  "tipsAt (addChainTip st bi n) h =
     (if h = height (st n) then tipsAt bi h @ [n] else tipsAt bi h)"
  by (simp add: addChainTip_def tipsAt_def)

lemma chainTips_addChainTip_nonempty:
  "chainTips bi h \<noteq> Some [] \<Longrightarrow> chainTips (addChainTip st bi n) h \<noteq> Some []"
  by (simp add: addChainTip_def)

lemma tipsAt_removeChainTip:
  "tipsAt (removeChainTip st bi p) h =
     (if h = height (st p) then remove1 p (tipsAt bi h) else tipsAt bi h)"
  by (simp add: removeChainTip_def tipsAt_def Let_def removeTip_remove1)

lemma chainTips_removeChainTip_nonempty:
  "chainTips bi h \<noteq> Some [] \<Longrightarrow> chainTips (removeChainTip st bi p) h \<noteq> Some []"
  by (simp add: removeChainTip_def Let_def)

lemma tipsAt_index_update: "tipsAt (bi\<lparr>index := m\<rparr>) h = tipsAt bi h"
  by (simp add: tipsAt_def)

lemma tipsAt_addNode:
  "tipsAt (addNode st bi n) h =
     (case parent (st n) of
        None \<Rightarrow> (if h = height (st n) then tipsAt bi h @ [n] else tipsAt bi h)
      | Some p \<Rightarrow>
          (if h = height (st p)
           then remove1 p (if h = height (st n) then tipsAt bi h @ [n] else tipsAt bi h)
           else (if h = height (st n) then tipsAt bi h @ [n] else tipsAt bi h)))"
  by (simp add: addNode_def Let_def tipsAt_addChainTip tipsAt_removeChainTip tipsAt_index_update
      split: option.split)

lemma chainTips_addNode_nonempty:
  assumes "chainTips bi h \<noteq> Some []"
  shows "chainTips (addNode st bi n) h \<noteq> Some []"
proof -
  have "chainTips (bi\<lparr>index := (index bi)(hash (st n) \<mapsto> n)\<rparr>) h \<noteq> Some []"
    using assms by simp
  then have "chainTips (addChainTip st (bi\<lparr>index := (index bi)(hash (st n) \<mapsto> n)\<rparr>) n) h \<noteq> Some []"
    by (rule chainTips_addChainTip_nonempty)
  then show ?thesis
    by (cases "parent (st n)")
       (simp_all add: addNode_def Let_def chainTips_removeChainTip_nonempty)
qed

lemma parents_first_snoc:
  assumes "parents_first st (nodes @ [n])"
  shows "parents_first st nodes"
    and "parent (st n) = Some p \<Longrightarrow> p \<in> set nodes"
proof -
  show "parents_first st nodes"
    unfolding parents_first_def
  proof (intro allI impI)
    fix i p assume i: "i < length nodes" and p: "parent (st (nodes ! i)) = Some p"
    from i have "i < length (nodes @ [n])" by simp
    moreover from i p have "parent (st ((nodes @ [n]) ! i)) = Some p" by (simp add: nth_append)
    ultimately have "p \<in> set (take i (nodes @ [n]))"
      using assms unfolding parents_first_def by blast
    with i show "p \<in> set (take i nodes)" by simp
  qed
  show "p \<in> set nodes" if "parent (st n) = Some p"
  proof -
    have "length nodes < length (nodes @ [n])" by simp
    moreover have "parent (st ((nodes @ [n]) ! length nodes)) = Some p" using that by simp
    ultimately have "p \<in> set (take (length nodes) (nodes @ [n]))"
      using assms unfolding parents_first_def by blast
    then show ?thesis by simp
  qed
qed

lemma parents_first_parent_mem:
  assumes "parents_first st nodes" and "m \<in> set nodes" and "parent (st m) = Some p"
  shows "p \<in> set nodes"
proof -
  from assms(2) obtain i where i: "i < length nodes" "nodes ! i = m"
    by (auto simp: in_set_conv_nth)
  with assms(1,3) have "p \<in> set (take i nodes)" unfolding parents_first_def by blast
  then show ?thesis by (rule in_set_takeD)
qed

lemma childless_snoc:
  assumes pf: "parents_first st (nodes @ [n])" and new: "n \<notin> set nodes"
  shows "childless st (nodes @ [n]) h =
           (childless st nodes h \<union> (if height (st n) = h then {n} else {}))
             - (case parent (st n) of None \<Rightarrow> {} | Some p \<Rightarrow> {p})"
proof -
  have pf': "parents_first st nodes" using pf by (rule parents_first_snoc(1))
  have nochild: "parent (st m) \<noteq> Some n" if "m \<in> set nodes" for m
    using parents_first_parent_mem[OF pf' that] new by auto
  have self: "parent (st n) \<noteq> Some n"
    using parents_first_snoc(2)[OF pf] new by auto
  show ?thesis
    using nochild self by (auto simp: childless_def split: option.splits)
qed

lemma childless_height: "x \<in> childless st nodes h \<Longrightarrow> height (st x) = h"
  by (simp add: childless_def)

lemma addNodes_snoc: "addNodes st bi (nodes @ [n]) = addNode st (addNodes st bi nodes) n"
  by (simp add: addNodes_def)

text \<open>
  Claim C7. Starting from the empty index, after any sequence of \<open>addNode\<close> calls in
  which no hash is added twice and every parent was added before its child, the tip
  list of each height holds, once each, exactly the added nodes of that height that are
  not the parent of an added node, and no height is mapped to an empty list.
\<close>

theorem chainTips_invariant:
  assumes "distinct (map (\<lambda>n. hash (st n)) nodes)" and "parents_first st nodes"
  shows "set (tipsAt (addNodes st newBlockIndex nodes) h) = childless st nodes h
       \<and> distinct (tipsAt (addNodes st newBlockIndex nodes) h)
       \<and> chainTips (addNodes st newBlockIndex nodes) h \<noteq> Some []"
  using assms
proof (induction nodes arbitrary: h rule: rev_induct)
  case Nil
  show ?case by (simp add: addNodes_def newBlockIndex_def tipsAt_def childless_def)
next
  case (snoc n nodes)
  let ?bi = "addNodes st newBlockIndex nodes"
  from snoc.prems(1) have d: "distinct (map (\<lambda>n. hash (st n)) nodes)"
    and hn: "hash (st n) \<notin> (\<lambda>n. hash (st n)) ` set nodes" by simp_all
  from hn have new: "n \<notin> set nodes" by blast
  have pf: "parents_first st nodes" using snoc.prems(2) by (rule parents_first_snoc(1))
  have IH: "set (tipsAt ?bi k) = childless st nodes k" "distinct (tipsAt ?bi k)"
    "chainTips ?bi k \<noteq> Some []" for k
    using snoc.IH[OF d pf, of k] by simp_all
  have notin: "n \<notin> set (tipsAt ?bi k)" for k
    using IH(1)[of k] new by (simp add: childless_def)
  let ?added = "if h = height (st n) then tipsAt ?bi h @ [n] else tipsAt ?bi h"
  have set_added: "set ?added = childless st nodes h \<union> (if height (st n) = h then {n} else {})"
    using IH(1)[of h] by auto
  have dist_added: "distinct ?added" using IH(2)[of h] notin[of h] by auto
  have cl: "childless st (nodes @ [n]) h =
           (childless st nodes h \<union> (if height (st n) = h then {n} else {}))
             - (case parent (st n) of None \<Rightarrow> {} | Some p \<Rightarrow> {p})"
    by (rule childless_snoc[OF snoc.prems(2) new])
  have ne: "chainTips (addNodes st newBlockIndex (nodes @ [n])) h \<noteq> Some []"
    unfolding addNodes_snoc by (rule chainTips_addNode_nonempty[OF IH(3)])
  show ?case
  proof (cases "parent (st n)")
    case None
    then have t: "tipsAt (addNodes st newBlockIndex (nodes @ [n])) h = ?added"
      by (simp add: addNodes_snoc tipsAt_addNode)
    show ?thesis using ne set_added dist_added cl None unfolding t by simp
  next
    case (Some p)
    have pin: "p \<in> set nodes" using parents_first_snoc(2)[OF snoc.prems(2) Some] .
    then have pn: "p \<noteq> n" using new by auto
    show ?thesis
    proof (cases "h = height (st p)")
      case True
      then have t: "tipsAt (addNodes st newBlockIndex (nodes @ [n])) h = remove1 p ?added"
        using Some by (simp add: addNodes_snoc tipsAt_addNode)
      have "set (remove1 p ?added) = set ?added - {p}"
        using dist_added by (rule set_remove1_eq)
      moreover have "distinct (remove1 p ?added)" using dist_added by (rule distinct_remove1)
      ultimately show ?thesis using ne set_added cl Some unfolding t by simp
    next
      case False
      then have t: "tipsAt (addNodes st newBlockIndex (nodes @ [n])) h = ?added"
        using Some by (simp add: addNodes_snoc tipsAt_addNode)
      have "p \<notin> childless st nodes h" using False childless_height[of p st nodes h] by auto
      then have "set ?added - {p} = set ?added" using set_added pn by auto
      then show ?thesis using ne set_added dist_added cl Some unfolding t by simp
    qed
  qed
qed

lemma st1_distinct: "distinct (map (\<lambda>n. hash (st1 n)) [0, 1, 2, 3])"
  by (simp add: st1_def)

lemma parents_first_Nil: "parents_first st []"
  by (simp add: parents_first_def)

lemma parents_first_snoc_iff:
  "parents_first st (nodes @ [n]) \<longleftrightarrow>
     parents_first st nodes \<and> (case parent (st n) of None \<Rightarrow> True | Some p \<Rightarrow> p \<in> set nodes)"
proof
  assume a: "parents_first st (nodes @ [n])"
  show "parents_first st nodes \<and> (case parent (st n) of None \<Rightarrow> True | Some p \<Rightarrow> p \<in> set nodes)"
    using parents_first_snoc[OF a] by (auto split: option.split)
next
  assume a: "parents_first st nodes \<and> (case parent (st n) of None \<Rightarrow> True | Some p \<Rightarrow> p \<in> set nodes)"
  show "parents_first st (nodes @ [n])"
    unfolding parents_first_def
  proof (intro allI impI)
    fix i p assume i: "i < length (nodes @ [n])" and p: "parent (st ((nodes @ [n]) ! i)) = Some p"
    show "p \<in> set (take i (nodes @ [n]))"
    proof (cases "i < length nodes")
      case True
      with p have "parent (st (nodes ! i)) = Some p" by (simp add: nth_append)
      with a True have "p \<in> set (take i nodes)" unfolding parents_first_def by blast
      with True show ?thesis by simp
    next
      case False
      with i have e: "i = length nodes" by simp
      with p have "parent (st n) = Some p" by simp
      with a have "p \<in> set nodes" by simp
      with e show ?thesis by simp
    qed
  qed
qed

lemma st1_parents_first: "parents_first st1 [0, 1, 2, 3]"
proof -
  have "parents_first st1 ((([] @ [0]) @ [1]) @ [2] @ [3])"
    unfolding append_assoc[symmetric]
    by (simp only: parents_first_snoc_iff parents_first_Nil) (simp add: st1_def)
  then show ?thesis by simp
qed

lemma st1_childless:
  "childless st1 [0, 1, 2, 3] 0 = {}"
  "childless st1 [0, 1, 2, 3] 1 = {2}"
  "childless st1 [0, 1, 2, 3] 2 = {3}"
  by (auto simp: childless_def st1_def)

lemma st1_run: "chainTips (addNodes st1 newBlockIndex [0, 1, 2, 3]) 0 = None"
  "chainTips (addNodes st1 newBlockIndex [0, 1, 2, 3]) 1 = Some [2]"
  "chainTips (addNodes st1 newBlockIndex [0, 1, 2, 3]) 2 = Some [3]"
  by (simp_all add: addNodes_def addNode_def addChainTip_def removeChainTip_def tipsAt_def
      newBlockIndex_def st1_def Let_def)

text \<open>
  The scenario of the claim: the siblings 1 and 2 are added at height 1, then node 3, a
  child of node 1. Node 2 and node 3 are the tips; the height of the root has no entry.
\<close>

theorem chainTips_invariant_witness:
  "distinct (map (\<lambda>n. hash (st1 n)) [0, 1, 2, 3]) \<and> parents_first st1 [0, 1, 2, 3]
   \<and> set (tipsAt (addNodes st1 newBlockIndex [0, 1, 2, 3]) 0) = {}
   \<and> set (tipsAt (addNodes st1 newBlockIndex [0, 1, 2, 3]) 1) = {2}
   \<and> set (tipsAt (addNodes st1 newBlockIndex [0, 1, 2, 3]) 2) = {3}
   \<and> chainTips (addNodes st1 newBlockIndex [0, 1, 2, 3]) 0 = None
   \<and> chainTips (addNodes st1 newBlockIndex [0, 1, 2, 3]) 1 = Some [2]
   \<and> chainTips (addNodes st1 newBlockIndex [0, 1, 2, 3]) 2 = Some [3]"
  using chainTips_invariant [OF st1_distinct st1_parents_first, of 0]
    chainTips_invariant [OF st1_distinct st1_parents_first, of 1]
    chainTips_invariant [OF st1_distinct st1_parents_first, of 2]
    st1_distinct st1_parents_first st1_run
  by (simp only: st1_childless simp_thms)

section \<open>The transaction index\<close>

lemma length_PutUint32: "length (PutUint32 v) = 4"
  by (simp add: PutUint32_def)

lemma length_putTxIndexEntry: "length (putTxIndexEntry blockID loc) = 12"
  by (simp add: putTxIndexEntry_def length_PutUint32)

text \<open>
  Claim C5, as amended. The lookup returns no region and no error when the transaction
  hash has no record or an empty one; it returns the corruption error naming the hash
  when the record has between 1 and 11 bytes, and the corruption error naming the hash
  and carrying \<open>errNoBlockIDEntry\<close> when the record has at least 12 bytes and its first
  four bytes are no key of the locator-to-hash bucket. \<open>TxBlockRegion\<close> is the lookup
  \<open>dbFetchTxIndexEntry\<close> run in a view.
\<close>

theorem TxBlockRegion_results:
  "(txIndexBucket tx (Bytes h) = None \<longrightarrow> TxBlockRegion tx h = Inr None)
   \<and> (txIndexBucket tx (Bytes h) = Some [] \<longrightarrow> TxBlockRegion tx h = Inr None)
   \<and> (\<forall>d. txIndexBucket tx (Bytes h) = Some d \<and> 0 < length d \<and> length d < 12 \<longrightarrow>
          TxBlockRegion tx h = Inl (DatabaseError ErrCorruption h None))
   \<and> (\<forall>d. txIndexBucket tx (Bytes h) = Some d \<and> 12 \<le> length d
          \<and> hashByIDIndexBucket tx (take 4 d) = None \<longrightarrow>
          TxBlockRegion tx h = Inl (DatabaseError ErrCorruption h (Some errNoBlockIDEntry)))
   \<and> TxBlockRegion tx h = dbFetchTxIndexEntry tx h"
  by (auto simp: TxBlockRegion_def dbFetchTxIndexEntry_def dbFetchBlockHashBySerializedID_def Let_def)

theorem TxBlockRegion_results_witness:
  "txIndexBucket (emptyTx\<lparr>txIndexBucket := [Bytes h1 \<mapsto> [1, 2, 3, 4, 5]]\<rparr>) (Bytes h1) = Some [1, 2, 3, 4, 5]
   \<and> TxBlockRegion (emptyTx\<lparr>txIndexBucket := [Bytes h1 \<mapsto> [1, 2, 3, 4, 5]]\<rparr>) h1
       = Inl (DatabaseError ErrCorruption h1 None)
   \<and> TxBlockRegion (emptyTx\<lparr>txIndexBucket := [Bytes h1 \<mapsto> putTxIndexEntry 7 \<lparr>TxStart = 80, TxLen = 200\<rparr>]\<rparr>) h1
       = Inl (DatabaseError ErrCorruption h1 (Some errNoBlockIDEntry))
   \<and> TxBlockRegion emptyTx h1 = Inr None"
proof -
  let ?a = "emptyTx\<lparr>txIndexBucket := [Bytes h1 \<mapsto> [1, 2, 3, 4, 5]]\<rparr>"
  let ?b = "emptyTx\<lparr>txIndexBucket := [Bytes h1 \<mapsto> putTxIndexEntry 7 \<lparr>TxStart = 80, TxLen = 200\<rparr>]\<rparr>"
  have a: "txIndexBucket ?a (Bytes h1) = Some [1, 2, 3, 4, 5] \<and> 0 < length [1, 2, 3, 4, 5 :: byte]
           \<and> length [1, 2, 3, 4, 5 :: byte] < 12"
    by simp
  have b: "txIndexBucket ?b (Bytes h1) = Some (putTxIndexEntry 7 \<lparr>TxStart = 80, TxLen = 200\<rparr>)
           \<and> 12 \<le> length (putTxIndexEntry 7 \<lparr>TxStart = 80, TxLen = 200\<rparr>)
           \<and> hashByIDIndexBucket ?b (take 4 (putTxIndexEntry 7 \<lparr>TxStart = 80, TxLen = 200\<rparr>)) = None"
    by (simp add: length_putTxIndexEntry emptyTx_def)
  have c: "txIndexBucket emptyTx (Bytes h1) = None" by (simp add: emptyTx_def)
  from a TxBlockRegion_results [of ?a h1]
  have "TxBlockRegion ?a h1 = Inl (DatabaseError ErrCorruption h1 None)" by blast
  moreover from b TxBlockRegion_results [of ?b h1]
  have "TxBlockRegion ?b h1 = Inl (DatabaseError ErrCorruption h1 (Some errNoBlockIDEntry))" by blast
  moreover from c TxBlockRegion_results [of emptyTx h1]
  have "TxBlockRegion emptyTx h1 = Inr None" by blast
  ultimately show ?thesis using a by blast
qed

text \<open>
  Claim C5 as stated fails for a record that exists and is empty: it is shorter than 12
  bytes, and the lookup answers as for a missing record.
\<close>

theorem TxBlockRegion_empty_record_counterexample:
  "txIndexBucket (emptyTx\<lparr>txIndexBucket := [Bytes h1 \<mapsto> []]\<rparr>) (Bytes h1) = Some []
   \<and> length ([] :: byte list) < 12
   \<and> TxBlockRegion (emptyTx\<lparr>txIndexBucket := [Bytes h1 \<mapsto> []]\<rparr>) h1 = Inr None"
  by (simp add: TxBlockRegion_def dbFetchTxIndexEntry_def)

lemma dbRemoveTxIndexEntry_stored:
  "stored tx (Bytes h) \<Longrightarrow>
     dbRemoveTxIndexEntry tx h = Inr (tx\<lparr>txIndexBucket := (txIndexBucket tx)(Bytes h := None)\<rparr>)"
  by (auto simp: dbRemoveTxIndexEntry_def stored_def Let_def split: option.splits)

lemma dbRemoveTxIndexEntry_missing:
  "\<not> stored tx (Bytes h) \<Longrightarrow> dbRemoveTxIndexEntry tx h = Inl (RemoveNonExistent h)"
  by (auto simp: dbRemoveTxIndexEntry_def stored_def Let_def split: option.splits)

lemma stored_after_remove:
  "stored (tx\<lparr>txIndexBucket := (txIndexBucket tx)(k := None)\<rparr>) k' \<longleftrightarrow> k' \<noteq> k \<and> stored tx k'"
  by (simp add: stored_def)

lemma removeEntries_missing:
  assumes "\<exists>t \<in> set txns. \<not> stored tx (txKey t)"
  shows "\<exists>err. removeEntries tx txns = Inl err"
  using assms
proof (induction txns arbitrary: tx)
  case Nil
  then show ?case by simp
next
  case (Cons t txns)
  show ?case
  proof (cases "stored tx (txKey t)")
    case False
    then show ?thesis by (simp add: dbRemoveTxIndexEntry_missing txKey_def)
  next
    case True
    let ?tx1 = "tx\<lparr>txIndexBucket := (txIndexBucket tx)(txKey t := None)\<rparr>"
    from True have r: "dbRemoveTxIndexEntry tx (TxHashCached t) = Inr ?tx1"
      using dbRemoveTxIndexEntry_stored[of tx "TxHashCached t"] by (simp add: txKey_def)
    from Cons.prems True obtain u where u: "u \<in> set txns" "\<not> stored tx (txKey u)" by auto
    then have "\<not> stored ?tx1 (txKey u)" by (simp add: stored_after_remove)
    with u(1) have "\<exists>err. removeEntries ?tx1 txns = Inl err" by (intro Cons.IH) blast
    with r show ?thesis by simp
  qed
qed

lemma removeEntries_ok:
  assumes "distinct (map txKey txns)" and "\<forall>t \<in> set txns. stored tx (txKey t)"
  shows "removeEntries tx txns =
           Inr (tx\<lparr>txIndexBucket := (\<lambda>k. if k \<in> txKey ` set txns then None else txIndexBucket tx k)\<rparr>)"
  using assms
proof (induction txns arbitrary: tx)
  case Nil
  then show ?case by simp
next
  case (Cons t txns)
  let ?tx1 = "tx\<lparr>txIndexBucket := (txIndexBucket tx)(txKey t := None)\<rparr>"
  from Cons.prems have r: "dbRemoveTxIndexEntry tx (TxHashCached t) = Inr ?tx1"
    using dbRemoveTxIndexEntry_stored[of tx "TxHashCached t"] by (simp add: txKey_def)
  from Cons.prems have d: "distinct (map txKey txns)" and nt: "txKey t \<notin> txKey ` set txns"
    by simp_all
  have "\<forall>u \<in> set txns. stored ?tx1 (txKey u)"
    using Cons.prems(2) nt by (auto simp: stored_after_remove image_iff)
  from Cons.IH[OF d this] r
  have "removeEntries tx (t # txns) =
          Inr (?tx1\<lparr>txIndexBucket := (\<lambda>k. if k \<in> txKey ` set txns then None else txIndexBucket ?tx1 k)\<rparr>)"
    by simp
  moreover have "(\<lambda>k. if k \<in> txKey ` set txns then None else txIndexBucket ?tx1 k)
               = (\<lambda>k. if k \<in> txKey ` set (t # txns) then None else txIndexBucket tx k)"
    by (rule ext) auto
  ultimately show ?case by simp
qed

text \<open>
  Claim C6, as amended. \<open>DisconnectBlock\<close> returns an error when a transaction of the
  block has no stored location entry. When every transaction has one (and the hashes are
  distinct) and the hash of the block has no entry in the hash-to-locator bucket, it
  returns no error: the location entries are removed and the counter is decremented.
\<close>

theorem DisconnectBlock_never_indexed:
  "((\<exists>t \<in> set (Transactions block). \<not> stored tx (txKey t)) \<longrightarrow>
      (\<exists>err. DisconnectBlock (idx, tx) block = Inl err))
   \<and> (distinct (map txKey (Transactions block))
        \<and> (\<forall>t \<in> set (Transactions block). stored tx (txKey t))
        \<and> idByHashIndexBucket tx (Bytes (BlockHash block)) = None \<longrightarrow>
      DisconnectBlock (idx, tx) block =
        Inr (idx\<lparr>curBlockID := curBlockID idx - 1\<rparr>,
             tx\<lparr>txIndexBucket :=
                  (\<lambda>k. if k \<in> txKey ` set (Transactions block) then None else txIndexBucket tx k)\<rparr>))"
proof (intro conjI impI)
  assume "\<exists>t \<in> set (Transactions block). \<not> stored tx (txKey t)"
  then obtain err where "removeEntries tx (Transactions block) = Inl err"
    using removeEntries_missing by blast
  then show "\<exists>err. DisconnectBlock (idx, tx) block = Inl err"
    by (simp add: DisconnectBlock_def dbRemoveTxIndexEntries_def)
next
  assume a: "distinct (map txKey (Transactions block))
        \<and> (\<forall>t \<in> set (Transactions block). stored tx (txKey t))
        \<and> idByHashIndexBucket tx (Bytes (BlockHash block)) = None"
  then have "removeEntries tx (Transactions block) =
     Inr (tx\<lparr>txIndexBucket := (\<lambda>k. if k \<in> txKey ` set (Transactions block) then None else txIndexBucket tx k)\<rparr>)"
    by (intro removeEntries_ok) simp_all
  with a show "DisconnectBlock (idx, tx) block =
        Inr (idx\<lparr>curBlockID := curBlockID idx - 1\<rparr>,
             tx\<lparr>txIndexBucket :=
                  (\<lambda>k. if k \<in> txKey ` set (Transactions block) then None else txIndexBucket tx k)\<rparr>)"
    by (simp add: DisconnectBlock_def dbRemoveTxIndexEntries_def dbRemoveBlockIDIndexEntry_def)
qed

lemma addEntries_effect:
  assumes "addEntries tx txns txLocs blockID = Inr tx'"
  shows "idByHashIndexBucket tx' = idByHashIndexBucket tx
       \<and> hashByIDIndexBucket tx' = hashByIDIndexBucket tx
       \<and> (\<forall>k. k \<notin> txKey ` set txns \<longrightarrow> txIndexBucket tx' k = txIndexBucket tx k)
       \<and> (\<forall>t \<in> set txns. stored tx' (txKey t))"
  using assms
proof (induction tx txns txLocs blockID rule: addEntries.induct)
  case (1 tx txLocs blockID)
  then show ?case by simp
next
  case (2 tx t txns blockID)
  then show ?case by simp
next
  case (3 tx t txns loc txLocs blockID)
  let ?tx1 = "dbPutTxIndexEntry tx (TxHashCached t) (putTxIndexEntry blockID loc)"
  from "3.prems" have run: "addEntries ?tx1 txns txLocs blockID = Inr tx'" by simp
  note IH = "3.IH"[OF run]
  have st: "stored tx' (txKey t)"
  proof (cases "txKey t \<in> txKey ` set txns")
    case True
    then obtain u where "u \<in> set txns" "txKey u = txKey t" by auto
    with IH show ?thesis by metis
  next
    case False
    with IH have "txIndexBucket tx' (txKey t) = txIndexBucket ?tx1 (txKey t)" by blast
    also have "\<dots> = Some (putTxIndexEntry blockID loc)"
      by (simp add: dbPutTxIndexEntry_def txKey_def)
    finally show ?thesis
      using length_putTxIndexEntry[of blockID loc] by (auto simp: stored_def)
  qed
  have other: "txIndexBucket tx' k = txIndexBucket tx k" if "k \<notin> txKey ` set (t # txns)" for k
  proof -
    from that have "k \<notin> txKey ` set txns" "k \<noteq> txKey t" by auto
    with IH have "txIndexBucket tx' k = txIndexBucket ?tx1 k" by blast
    also have "\<dots> = txIndexBucket tx k"
      using \<open>k \<noteq> txKey t\<close> by (simp add: dbPutTxIndexEntry_def txKey_def)
    finally show ?thesis .
  qed
  from IH st other show ?case by (simp add: dbPutTxIndexEntry_def)
qed

lemma stored_txIndexBucket_cong:
  "txIndexBucket a = txIndexBucket b \<Longrightarrow> stored a k = stored b k"
  by (simp add: stored_def)

text \<open>
  Claim C4, as amended. When the transactions of the block have distinct hashes, none of
  them has a record in the bucket of locations, the hash of the block has no entry in the
  hash-to-locator bucket and the next locator has none in the locator-to-hash bucket,
  a \<open>ConnectBlock\<close> that succeeds followed by \<open>DisconnectBlock\<close> gives back the counter
  and the three buckets as they were.
\<close>

theorem Connect_then_Disconnect_restores:
  assumes connect: "ConnectBlock (idx, tx) block = Inr s1"
    and dist: "distinct (map txKey (Transactions block))"
    and fresh: "\<forall>t \<in> set (Transactions block). txIndexBucket tx (txKey t) = None"
    and nohash: "idByHashIndexBucket tx (Bytes (BlockHash block)) = None"
    and noid: "hashByIDIndexBucket tx (PutUint32 (curBlockID idx + 1)) = None"
  shows "DisconnectBlock s1 block = Inr (idx, tx)"
proof -
  let ?id = "curBlockID idx + 1"
  let ?bh = "BlockHash block"
  from connect obtain tx1 where
    add: "dbAddTxIndexEntries tx block ?id = Inr tx1"
    and s1: "s1 = (idx\<lparr>curBlockID := ?id\<rparr>, dbPutBlockIDIndexEntry tx1 ?bh ?id)"
    by (auto simp: ConnectBlock_def Let_def split: sum.splits)
  from add obtain txLocs where "addEntries tx (Transactions block) txLocs ?id = Inr tx1"
    by (auto simp: dbAddTxIndexEntries_def split: sum.splits)
  note eff = addEntries_effect[OF this]
  let ?tx2 = "dbPutBlockIDIndexEntry tx1 ?bh ?id"
  have b2: "txIndexBucket ?tx2 = txIndexBucket tx1"
    by (simp add: dbPutBlockIDIndexEntry_def Let_def)
  have "\<forall>t \<in> set (Transactions block). stored ?tx2 (txKey t)"
    using eff stored_txIndexBucket_cong[OF b2] by blast
  from removeEntries_ok[OF dist this]
  have rem: "removeEntries ?tx2 (Transactions block) =
      Inr (?tx2\<lparr>txIndexBucket :=
            (\<lambda>k. if k \<in> txKey ` set (Transactions block) then None else txIndexBucket ?tx2 k)\<rparr>)" .
  have restored: "(\<lambda>k. if k \<in> txKey ` set (Transactions block) then None else txIndexBucket ?tx2 k)
            = txIndexBucket tx"
  proof (rule ext)
    fix k
    show "(if k \<in> txKey ` set (Transactions block) then None else txIndexBucket ?tx2 k)
            = txIndexBucket tx k"
    proof (cases "k \<in> txKey ` set (Transactions block)")
      case True
      then show ?thesis using fresh by auto
    next
      case False
      with eff have "txIndexBucket tx1 k = txIndexBucket tx k" by blast
      with False b2 show ?thesis by simp
    qed
  qed
  have ih: "idByHashIndexBucket tx1 = idByHashIndexBucket tx"
    and hi: "hashByIDIndexBucket tx1 = hashByIDIndexBucket tx" using eff by simp_all
  have m1: "(idByHashIndexBucket tx)(Bytes ?bh := None) = idByHashIndexBucket tx"
    using nohash by (intro fun_upd_idem) simp
  have m2: "(hashByIDIndexBucket tx)(PutUint32 ?id := None) = hashByIDIndexBucket tx"
    using noid by (intro fun_upd_idem) simp
  have d: "DisconnectBlock s1 block =
      Inr ((idx\<lparr>curBlockID := ?id\<rparr>)\<lparr>curBlockID := ?id - 1\<rparr>,
           dbRemoveBlockIDIndexEntry (?tx2\<lparr>txIndexBucket := txIndexBucket tx\<rparr>) ?bh)"
    unfolding s1
    by (simp add: DisconnectBlock_def dbRemoveTxIndexEntries_def rem restored)
  have i: "(idx\<lparr>curBlockID := ?id\<rparr>)\<lparr>curBlockID := ?id - 1\<rparr> = idx" by simp
  have t: "dbRemoveBlockIDIndexEntry (?tx2\<lparr>txIndexBucket := txIndexBucket tx\<rparr>) ?bh = tx"
    by (simp add: dbRemoveBlockIDIndexEntry_def dbPutBlockIDIndexEntry_def Let_def ih hi m1 m2)
  show ?thesis unfolding d i t ..
qed

lemma connect_blk0:
  "ConnectBlock (NewTxIndex, emptyTx) blk0 =
     Inr (\<lparr>curBlockID = 1\<rparr>,
          \<lparr>txIndexBucket = [Bytes h1 \<mapsto> putTxIndexEntry 1 loc0],
           idByHashIndexBucket = [Bytes (BlockHash blk0) \<mapsto> PutUint32 1],
           hashByIDIndexBucket = [PutUint32 1 \<mapsto> Bytes (BlockHash blk0)]\<rparr>)"
  by (simp add: ConnectBlock_def NewTxIndex_def emptyTx_def blk0_def dbAddTxIndexEntries_def
      dbPutTxIndexEntry_def dbPutBlockIDIndexEntry_def t0_def Let_def)

theorem Connect_then_Disconnect_restores_witness:
  "distinct (map txKey (Transactions blk0))
   \<and> txIndexBucket emptyTx (txKey t0) = None
   \<and> idByHashIndexBucket emptyTx (Bytes (BlockHash blk0)) = None
   \<and> hashByIDIndexBucket emptyTx (PutUint32 (curBlockID NewTxIndex + 1)) = None
   \<and> (\<exists>s1. ConnectBlock (NewTxIndex, emptyTx) blk0 = Inr s1
           \<and> curBlockID (fst s1) = 1
           \<and> txIndexBucket (snd s1) (txKey t0) = Some (putTxIndexEntry 1 loc0)
           \<and> DisconnectBlock s1 blk0 = Inr (NewTxIndex, emptyTx))"
proof -
  have a: "distinct (map txKey (Transactions blk0))" by (simp add: blk0_def)
  have b: "\<forall>t \<in> set (Transactions blk0). txIndexBucket emptyTx (txKey t) = None"
    by (simp add: emptyTx_def)
  have c: "idByHashIndexBucket emptyTx (Bytes (BlockHash blk0)) = None" by (simp add: emptyTx_def)
  have d: "hashByIDIndexBucket emptyTx (PutUint32 (curBlockID NewTxIndex + 1)) = None"
    by (simp add: emptyTx_def)
  note th = Connect_then_Disconnect_restores [OF connect_blk0 a b c d]
  have e: "txIndexBucket emptyTx (txKey t0) = None" by (simp add: emptyTx_def)
  show ?thesis
    using a c d e connect_blk0 th by (simp add: txKey_def t0_def)
qed

text \<open>
  Claim C4 as stated fails for a block that holds the same transaction twice: none of its
  hashes is in the bucket, \<open>ConnectBlock\<close> succeeds, and \<open>DisconnectBlock\<close> stops with an
  error at the second removal.
\<close>

theorem Connect_then_Disconnect_duplicate_counterexample:
  "txIndexBucket emptyTx (txKey t0) = None
   \<and> (\<exists>s1. ConnectBlock (NewTxIndex, emptyTx) blkDup = Inr s1
           \<and> DisconnectBlock s1 blkDup = Inl (RemoveNonExistent h1))"
proof -
  have c: "ConnectBlock (NewTxIndex, emptyTx) blkDup =
     Inr (\<lparr>curBlockID = 1\<rparr>,
          \<lparr>txIndexBucket = [Bytes h1 \<mapsto> putTxIndexEntry 1 loc0],
           idByHashIndexBucket = [Bytes (BlockHash blkDup) \<mapsto> PutUint32 1],
           hashByIDIndexBucket = [PutUint32 1 \<mapsto> Bytes (BlockHash blkDup)]\<rparr>)"
    by (simp add: ConnectBlock_def NewTxIndex_def emptyTx_def blkDup_def dbAddTxIndexEntries_def
        dbPutTxIndexEntry_def dbPutBlockIDIndexEntry_def t0_def Let_def)
  have l: "putTxIndexEntry 1 loc0 \<noteq> []"
    using length_putTxIndexEntry[of 1 loc0] by auto
  have d: "DisconnectBlock (\<lparr>curBlockID = 1\<rparr>,
          \<lparr>txIndexBucket = [Bytes h1 \<mapsto> putTxIndexEntry 1 loc0],
           idByHashIndexBucket = [Bytes (BlockHash blkDup) \<mapsto> PutUint32 1],
           hashByIDIndexBucket = [PutUint32 1 \<mapsto> Bytes (BlockHash blkDup)]\<rparr>) blkDup
        = Inl (RemoveNonExistent h1)"
    using l by (simp add: DisconnectBlock_def dbRemoveTxIndexEntries_def dbRemoveTxIndexEntry_def
        blkDup_def t0_def Let_def)
  have e: "txIndexBucket emptyTx (txKey t0) = None" by (simp add: emptyTx_def)
  from c d e show ?thesis by simp
qed

theorem DisconnectBlock_never_indexed_witness:
  "\<not> stored emptyTx (txKey t0)
   \<and> (\<exists>err. DisconnectBlock (\<lparr>curBlockID = 1\<rparr>, emptyTx) blk0 = Inl err)
   \<and> distinct (map txKey (Transactions blk0))
   \<and> stored txStored (txKey t0)
   \<and> idByHashIndexBucket txStored (Bytes (BlockHash blk0)) = None
   \<and> (\<exists>s. DisconnectBlock (\<lparr>curBlockID = 1\<rparr>, txStored) blk0 = Inr s
          \<and> curBlockID (fst s) = 0 \<and> txIndexBucket (snd s) (txKey t0) = None)"
proof -
  have a: "\<not> stored emptyTx (txKey t0)" by (simp add: stored_def emptyTx_def)
  then have a': "\<exists>t \<in> set (Transactions blk0). \<not> stored emptyTx (txKey t)"
    by (simp add: blk0_def)
  have b: "distinct (map txKey (Transactions blk0))" by (simp add: blk0_def)
  have l: "putTxIndexEntry 1 loc0 \<noteq> []"
    using length_putTxIndexEntry[of 1 loc0] by auto
  then have c: "stored txStored (txKey t0)"
    by (simp add: stored_def txStored_def txKey_def t0_def)
  then have c': "\<forall>t \<in> set (Transactions blk0). stored txStored (txKey t)"
    by (simp add: blk0_def)
  have d: "idByHashIndexBucket txStored (Bytes (BlockHash blk0)) = None"
    by (simp add: txStored_def emptyTx_def)
  from a' DisconnectBlock_never_indexed [of blk0 emptyTx "\<lparr>curBlockID = 1\<rparr>"]
  have e: "\<exists>err. DisconnectBlock (\<lparr>curBlockID = 1\<rparr>, emptyTx) blk0 = Inl err" by blast
  from b c' d DisconnectBlock_never_indexed [of blk0 txStored "\<lparr>curBlockID = 1\<rparr>"]
  have "DisconnectBlock (\<lparr>curBlockID = 1\<rparr>, txStored) blk0 =
        Inr (\<lparr>curBlockID = 1\<rparr>\<lparr>curBlockID := curBlockID \<lparr>curBlockID = 1\<rparr> - 1\<rparr>,
             txStored\<lparr>txIndexBucket :=
                  (\<lambda>k. if k \<in> txKey ` set (Transactions blk0) then None else txIndexBucket txStored k)\<rparr>)"
    by blast
  then have f: "\<exists>s. DisconnectBlock (\<lparr>curBlockID = 1\<rparr>, txStored) blk0 = Inr s
          \<and> curBlockID (fst s) = 0 \<and> txIndexBucket (snd s) (txKey t0) = None"
    by (simp add: blk0_def)
  from a e b c d f show ?thesis by blast
qed

text \<open>
  Claim C6 as stated fails for a block whose hash was never given a locator:
  \<open>dbRemoveBlockIDIndexEntry\<close> returns nil, and \<open>DisconnectBlock\<close> returns no error and
  decrements the counter.
\<close>

theorem DisconnectBlock_unindexed_block_counterexample:
  "idByHashIndexBucket txStored (Bytes (BlockHash blk0)) = None
   \<and> DisconnectBlock (\<lparr>curBlockID = 1\<rparr>, txStored) blk0 = Inr (\<lparr>curBlockID = 0\<rparr>, emptyTx)"
proof -
  have l: "putTxIndexEntry 1 loc0 \<noteq> []"
    using length_putTxIndexEntry[of 1 loc0] by auto
  then show ?thesis
    by (simp add: DisconnectBlock_def dbRemoveTxIndexEntries_def dbRemoveTxIndexEntry_def
        dbRemoveBlockIDIndexEntry_def txStored_def emptyTx_def blk0_def t0_def Let_def)
qed

section \<open>Bootstrap of the locator counter\<close>


























section \<open>The Merkle tree and the witness commitment\<close>

lemma nextPowerOfTwo_1: "nextPowerOfTwo Log2 1 = 1"
  by (simp add: nextPowerOfTwo_def)

lemma BuildMerkleTreeStore_single_witness:
  "BuildMerkleTreeStore Log2 hf [tx] True = Inr [Some ZeroHash]"
  by (simp add: BuildMerkleTreeStore_def nextPowerOfTwo_1 Let_def leafHash_def buildLevels.simps)

text \<open>
  Claim C10. For a block of exactly one transaction the witness-mode tree is the one
  element array holding the zero hash, whatever the transaction contains; so, once the
  coinbase has an input with a non-zero commitment, \<open>ValidateWitnessCommitment\<close> compares
  the embedded commitment with the hash of the zero hash followed by the signature
  script of that input, and nothing else of the transaction enters the result.
\<close>

theorem single_transaction_witness_root:
  assumes "Transactions blk = [tx]"
  shows "BuildMerkleTreeStore Log2 hf (Transactions blk) True = Inr [Some ZeroHash]
       \<and> (\<forall>txin ins. TxIn (Tx tx) = txin # ins \<and> PreviousOutHash txin \<noteq> ZeroHash \<longrightarrow>
            ValidateWitnessCommitment Log2 hf blk =
              Inr (if DoubleHashH hf (Bytes ZeroHash @ SignScript txin) = PreviousOutHash txin
                   then None
                   else Some (CommitmentMismatch
                                (DoubleHashH hf (Bytes ZeroHash @ SignScript txin))
                                (PreviousOutHash txin))))"
  using assms
  by (simp add: ValidateWitnessCommitment_def BuildMerkleTreeStore_single_witness Let_def)

lemma length_pairLevel: "length (pairLevel hf level) = length level div 2"
  by (induction hf level rule: pairLevel.induct) simp_all

lemma nth_pairLevel:
  "2 * s + 1 < length level \<Longrightarrow>
     pairLevel hf level ! s = parentHash hf (level ! (2 * s)) (level ! (2 * s + 1))"
proof (induction hf level arbitrary: s rule: pairLevel.induct)
  case (1 hf l r rest)
  show ?case
  proof (cases s)
    case 0
    then show ?thesis by simp
  next
    case (Suc s')
    with "1.prems" have "2 * s' + 1 < length rest" by simp
    from "1.IH"[OF this] Suc show ?thesis by simp
  qed
qed simp_all

lemma pairingRoot_single: "pairingRoot hf [x] = x"
  by (simp add: pairingRoot.simps)

lemma pairingRoot_step:
  "1 < length level \<Longrightarrow> pairingRoot hf level = pairingRoot hf (pairLevel hf level)"
  by (subst pairingRoot.simps) simp

lemma linked_root:
  "linked hf (2 ^ k) ms \<Longrightarrow> last ms = pairingRoot hf (take (2 ^ k) ms)"
proof (induction k arbitrary: ms)
  case 0
  then have "length ms = 1" by (simp add: linked_def)
  then obtain x where "ms = [x]" by (cases ms) auto
  then show ?case by (simp add: pairingRoot_single)
next
  case (Suc k)
  define Q :: nat where "Q = 2 ^ k"
  define P :: nat where "P = 2 * Q"
  have P: "2 ^ Suc k = P" by (simp add: P_def Q_def)
  have Q1: "1 \<le> Q" by (simp add: Q_def)
  from Suc.prems have len: "length ms = 2 * P - 1"
    and link: "\<And>s. s + 1 < P \<Longrightarrow> ms ! (P + s) = parentHash hf (ms ! (2 * s)) (ms ! (2 * s + 1))"
    unfolding P by (simp_all add: linked_def)
  let ?ms1 = "drop P ms"
  have len1: "length ?ms1 = 2 * Q - 1" using len by (simp add: P_def)
  have nth1: "?ms1 ! j = ms ! (P + j)" if "j < 2 * Q - 1" for j
    using that len by (simp add: P_def)
  have "linked hf Q ?ms1"
    unfolding linked_def
  proof (intro conjI allI impI)
    show "length ?ms1 = 2 * Q - 1" by (rule len1)
  next
    fix s assume s: "s + 1 < Q"
    then have a: "?ms1 ! (Q + s) = ms ! (P + (Q + s))" by (intro nth1) simp
    have "(Q + s) + 1 < P" using s by (simp add: P_def)
    from link[OF this] have b: "ms ! (P + (Q + s)) =
         parentHash hf (ms ! (2 * (Q + s))) (ms ! (2 * (Q + s) + 1))" .
    have c: "?ms1 ! (2 * s) = ms ! (2 * (Q + s))"
      using nth1[of "2 * s"] s by (simp add: P_def algebra_simps)
    have d: "?ms1 ! (2 * s + 1) = ms ! (2 * (Q + s) + 1)"
      using nth1[of "2 * s + 1"] s by (simp add: P_def algebra_simps)
    show "?ms1 ! (Q + s) = parentHash hf (?ms1 ! (2 * s)) (?ms1 ! (2 * s + 1))"
      unfolding a b c d ..
  qed
  then have "linked hf (2 ^ k) ?ms1" by (simp only: Q_def)
  from Suc.IH[OF this] have IH: "last ?ms1 = pairingRoot hf (take Q ?ms1)"
    by (simp only: Q_def)
  have "P < length ms" unfolding len using Q1 by (simp add: P_def)
  then have l: "last ms = last ?ms1" by (simp only: last_drop)
  have lenT: "length (take P ms) = P" using len Q1 by (simp add: P_def)
  have "take Q ?ms1 = pairLevel hf (take P ms)"
  proof (rule nth_equalityI)
    show "length (take Q ?ms1) = length (pairLevel hf (take P ms))"
      using len1 Q1 lenT by (simp add: length_pairLevel P_def)
  next
    fix j assume "j < length (take Q ?ms1)"
    then have j: "j < Q" by simp
    then have j1: "j < 2 * Q - 1" by simp
    have "take Q ?ms1 ! j = ?ms1 ! j" using j by simp
    also have "\<dots> = ms ! (P + j)" by (rule nth1[OF j1])
    also have "\<dots> = parentHash hf (ms ! (2 * j)) (ms ! (2 * j + 1))"
      using j by (intro link) (simp add: P_def)
    also have "\<dots> = parentHash hf (take P ms ! (2 * j)) (take P ms ! (2 * j + 1))"
      using j by (simp add: P_def)
    also have "\<dots> = pairLevel hf (take P ms) ! j"
      using j lenT by (intro nth_pairLevel[symmetric]) (simp add: P_def)
    finally show "take Q ?ms1 ! j = pairLevel hf (take P ms) ! j" .
  qed
  moreover have "pairingRoot hf (take P ms) = pairingRoot hf (pairLevel hf (take P ms))"
    using lenT Q1 by (intro pairingRoot_step) (simp add: P_def)
  ultimately show ?case using IH l unfolding P by simp
qed

lemma populate_ok:
  "i + length txs \<le> length ms \<Longrightarrow>
     populate hf w i txs ms =
       Inr (take i ms @ map Some (map (\<lambda>(j, tx). leafHash hf w j tx) (enumerate i txs))
              @ drop (i + length txs) ms)"
proof (induction txs arbitrary: i ms)
  case Nil
  then show ?case by simp
next
  case (Cons tx txs)
  let ?v = "Some (leafHash hf w i tx)"
  from Cons.prems have i: "i < length ms" by simp
  from Cons.prems have "Suc i + length txs \<le> length (ms[i := ?v])" by simp
  from Cons.IH[OF this] i
  have "populate hf w i (tx # txs) ms =
      Inr (take (Suc i) (ms[i := ?v])
            @ map Some (map (\<lambda>(j, tx). leafHash hf w j tx) (enumerate (Suc i) txs))
            @ drop (Suc i + length txs) (ms[i := ?v]))"
    by simp
  moreover have "take (Suc i) (ms[i := ?v]) = take i ms @ [?v]"
    using i by (simp add: take_Suc_conv_app_nth)
  moreover have "drop (Suc i + length txs) (ms[i := ?v]) = drop (i + length (tx # txs)) ms"
    by simp
  ultimately show ?case by simp
qed

lemma populate_replicate:
  assumes "length txs \<le> A"
  shows "populate hf w 0 txs (replicate A None) = Inr (paddedLeaves hf w txs A)"
  using populate_ok[of 0 txs "replicate A None" hf w] assms
  by (simp add: paddedLeaves_def leafHashes_def)

lemma buildLevels_round:
  assumes "i < arraySize - 1" and "inRange i ms" and "inRange (i + 1) ms" and "inRange offset ms"
  shows "buildLevels hf arraySize i offset ms =
           buildLevels hf arraySize (i + 2) (offset + 1)
             (ms[nat offset := parentHash hf (ms ! nat i) (ms ! nat (i + 1))])"
proof (cases "ms ! nat i")
  case None
  with assms show ?thesis by (subst buildLevels.simps) simp
next
  case (Some left)
  with assms show ?thesis
    by (subst buildLevels.simps) (cases "ms ! nat (i + 1)"; simp)
qed

lemma buildLevels_done:
  "\<not> i < arraySize - 1 \<Longrightarrow> buildLevels hf arraySize i offset ms = Inr ms"
  by (subst buildLevels.simps) simp

lemma buildLevels_linked:
  assumes "length ms = 2 * P - 1" and "t + 1 \<le> P"
    and "\<forall>s < t. ms ! (P + s) = parentHash hf (ms ! (2 * s)) (ms ! (2 * s + 1))"
  shows "\<exists>ms'. buildLevels hf (int (2 * P - 1)) (int (2 * t)) (int (P + t)) ms = Inr ms'
           \<and> linked hf P ms' \<and> take P ms' = take P ms"
  using assms
proof (induction "P - 1 - t" arbitrary: t ms)
  case 0
  then have t: "t + 1 = P" by simp
  then have "\<not> int (2 * t) < int (2 * P - 1) - 1" by simp
  then have "buildLevels hf (int (2 * P - 1)) (int (2 * t)) (int (P + t)) ms = Inr ms"
    by (rule buildLevels_done)
  moreover have "linked hf P ms"
    unfolding linked_def using "0.prems" t by auto
  ultimately show ?case by simp
next
  case (Suc d)
  then have t: "t + 2 \<le> P" by simp
  let ?v = "parentHash hf (ms ! (2 * t)) (ms ! (2 * t + 1))"
  let ?ms = "ms[P + t := ?v]"
  have len: "length ms = 2 * P - 1" by (rule Suc.prems(1))
  have r: "buildLevels hf (int (2 * P - 1)) (int (2 * t)) (int (P + t)) ms =
           buildLevels hf (int (2 * P - 1)) (int (2 * t) + 2) (int (P + t) + 1)
             (ms[nat (int (P + t)) := parentHash hf (ms ! nat (int (2 * t))) (ms ! nat (int (2 * t) + 1))])"
    using t len by (intro buildLevels_round) (simp_all add: inRange_def)
  have n1: "nat (int (2 * t) + 1) = 2 * t + 1" by simp
  have r': "buildLevels hf (int (2 * P - 1)) (int (2 * t)) (int (P + t)) ms =
           buildLevels hf (int (2 * P - 1)) (int (2 * (t + 1))) (int (P + (t + 1))) ?ms"
  proof -
    have e1: "int (2 * t) + 2 = int (2 * (t + 1))" by simp
    have e2: "int (P + t) + 1 = int (P + (t + 1))" by simp
    show ?thesis unfolding r nat_int n1 e1 e2 ..
  qed
  have inv: "\<forall>s < t + 1. ?ms ! (P + s) = parentHash hf (?ms ! (2 * s)) (?ms ! (2 * s + 1))"
  proof (intro allI impI)
    fix s assume s: "s < t + 1"
    have a: "?ms ! (2 * s) = ms ! (2 * s)" using s t by simp
    have b: "?ms ! (2 * s + 1) = ms ! (2 * s + 1)" using s t by simp
    show "?ms ! (P + s) = parentHash hf (?ms ! (2 * s)) (?ms ! (2 * s + 1))"
    proof (cases "s = t")
      case True
      then show ?thesis unfolding a b using t len by simp
    next
      case False
      with s have "s < t" by simp
      with Suc.prems(3) have "ms ! (P + s) = parentHash hf (ms ! (2 * s)) (ms ! (2 * s + 1))"
        by blast
      with False show ?thesis unfolding a b by simp
    qed
  qed
  have "d = P - 1 - (t + 1)" using Suc.hyps(2) by simp
  moreover have "length ?ms = 2 * P - 1" using len by simp
  moreover have "(t + 1) + 1 \<le> P" using t by simp
  ultimately obtain ms' where
    "buildLevels hf (int (2 * P - 1)) (int (2 * (t + 1))) (int (P + (t + 1))) ?ms = Inr ms'"
    "linked hf P ms'" "take P ms' = take P ?ms"
    using Suc.hyps(1)[of "t + 1" ?ms] inv by blast
  then show ?case unfolding r' by simp
qed

lemma length_leafHashes: "length (leafHashes hf w txs) = length txs"
  by (simp add: leafHashes_def)

lemma take_paddedLeaves:
  assumes "length txs \<le> P" and "P \<le> A"
  shows "take P (paddedLeaves hf w txs A) = paddedLeaves hf w txs P"
  using assms by (simp add: paddedLeaves_def length_leafHashes)

lemma unat_of_nat_64:
  assumes "n < 2 ^ 64"
  shows "unat (of_nat n :: 64 word) = n"
proof -
  have "n < 2 ^ LENGTH(64)" using assms by simp
  then show ?thesis by (simp only: unat_of_nat take_bit_nat_eq_self take_bit_eq_mod[symmetric])
qed

lemma pow2_62_bounds:
  assumes "k \<le> 62"
  shows "(2::nat) ^ k \<le> 2 ^ 62" and "2 * (2::nat) ^ k - 1 < 2 ^ 63" and "(2::nat) ^ k < 2 ^ 63"
proof -
  show a: "(2::nat) ^ k \<le> 2 ^ 62" using assms by (intro power_increasing) simp_all
  have "(2::nat) ^ 63 = 2 * 2 ^ 62" and "0 < (2::nat) ^ 62" by simp_all
  with a show "2 * (2::nat) ^ k - 1 < 2 ^ 63" by linarith
  from a show "(2::nat) ^ k < 2 ^ 63" by simp
qed

text \<open>The array size \<open>nextPoT*2 - 1\<close> when \<open>nextPoT\<close> is \<open>2 ^ k\<close> with \<open>k \<le> 62\<close>.\<close>

lemma arraySize_value:
  fixes p :: "64 word"
  assumes k: "k \<le> 62" and p: "unat p = 2 ^ k"
  shows "sint p = 2 ^ k" and "sint (p * 2 - 1) = 2 * 2 ^ k - 1"
proof -
  define P :: nat where "P = 2 ^ k"
  have P1: "1 \<le> P" by (simp add: P_def)
  have P63: "P < 2 ^ 63" "2 * P - 1 < 2 ^ 63" using pow2_62_bounds[OF k] by (simp_all add: P_def)
  have up: "unat p = P" using p by (simp add: P_def)
  then have "sint p = int P" using P63(1) unat_small_sint[of p] by simp
  then show "sint p = 2 ^ k" by (simp add: P_def)
  have "of_nat (unat p) = p" by simp
  then have "p = of_nat P" using up by simp
  then have "p * 2 - 1 = of_nat (2 * P) - 1" by simp
  also have "\<dots> = of_nat (2 * P - 1)" using P1 by (simp add: of_nat_diff)
  finally have e: "p * 2 - 1 = of_nat (2 * P - 1)" .
  have "2 * P - 1 < (2::nat) ^ 64" using P63(2) by simp
  then have u: "unat (p * 2 - 1) = 2 * P - 1" unfolding e by (rule unat_of_nat_64)
  then have "unat (p * 2 - 1) < 2 ^ 63" using P63(2) by simp
  then have "sint (p * 2 - 1) = int (unat (p * 2 - 1))" by (rule unat_small_sint)
  then have "sint (p * 2 - 1) = int (2 * P - 1)" using u by simp
  also have "\<dots> = 2 * int P - 1" using P1 by (simp add: of_nat_diff)
  finally show "sint (p * 2 - 1) = 2 * 2 ^ k - 1" by (simp add: P_def)
qed

lemma BuildMerkleTreeStore_ok:
  assumes ne: "txs \<noteq> []" and le: "length txs \<le> 2 ^ 62"
    and lg: "Log2_floor_at Log2 (of_nat (length txs))"
  shows "\<exists>k ms. k \<le> 62 \<and> length txs \<le> 2 ^ k \<and> (k = 0 \<or> 2 ^ (k - 1) < length txs)
           \<and> sint (nextPowerOfTwo Log2 (of_nat (length txs))) = 2 ^ k
           \<and> BuildMerkleTreeStore Log2 hf txs w = Inr ms
           \<and> length ms = 2 * 2 ^ k - 1
           \<and> last ms = pairingRoot hf (paddedLeaves hf w txs (2 ^ k))"
proof -
  define n where "n = length txs"
  define N :: "64 word" where "N = of_nat n"
  have npos: "0 < n" using ne by (simp add: n_def)
  have "n < 2 ^ 64" using le unfolding n_def by simp
  then have uN: "unat N = n" unfolding N_def by (rule unat_of_nat_64)
  have "0 < unat N" "unat N \<le> 2 ^ 62" "Log2_floor_at Log2 N"
    using uN npos le lg by (simp_all add: n_def N_def)
  from nextPowerOfTwo_unat[OF this] obtain k where
    k: "k \<le> 62" and pk: "unat (nextPowerOfTwo Log2 N) = 2 ^ k"
    and nk: "n \<le> 2 ^ k" and small: "k = 0 \<or> 2 ^ (k - 1) < n"
    unfolding uN by blast
  define P :: nat where "P = 2 ^ k"
  have P1: "1 \<le> P" by (simp add: P_def)
  let ?p = "nextPowerOfTwo Log2 N"
  have sp: "sint ?p = int P" and sa: "sint (?p * 2 - 1) = 2 * int P - 1"
    using arraySize_value[OF k pk] by (simp_all add: P_def)
  have nonneg: "\<not> sint (?p * 2 - 1) < 0" using sa P1 by simp
  have na: "nat (sint (?p * 2 - 1)) = 2 * P - 1" using sa P1 by simp
  have sa': "sint (?p * 2 - 1) = int (2 * P - 1)" using sa P1 by (simp add: of_nat_diff)
  have nA: "n \<le> 2 * P - 1" using nk P1 by (simp add: P_def)
  have pop: "populate hf w 0 txs (replicate (2 * P - 1) None) = Inr (paddedLeaves hf w txs (2 * P - 1))"
    using nA by (intro populate_replicate) (simp add: n_def)
  let ?pl = "paddedLeaves hf w txs (2 * P - 1)"
  have lpl: "length ?pl = 2 * P - 1"
    using nA by (simp add: paddedLeaves_def length_leafHashes n_def)
  have "\<forall>s < 0. ?pl ! (P + s) = parentHash hf (?pl ! (2 * s)) (?pl ! (2 * s + 1))" by simp
  with lpl P1 obtain ms where
    bl: "buildLevels hf (int (2 * P - 1)) (int (2 * 0)) (int (P + 0)) ?pl = Inr ms"
    and lk: "linked hf P ms" and tk: "take P ms = take P ?pl"
    using buildLevels_linked[of ?pl P 0 hf] by auto
  have run: "BuildMerkleTreeStore Log2 hf txs w = Inr ms"
    using ne npos nonneg bl pop
    by (simp add: BuildMerkleTreeStore_def Let_def N_def[symmetric] n_def[symmetric] na sa' sp)
  have "take P ?pl = paddedLeaves hf w txs P"
    using nk P1 by (intro take_paddedLeaves) (simp_all add: n_def P_def)
  with tk have "take P ms = paddedLeaves hf w txs P" by simp
  moreover have "last ms = pairingRoot hf (take (2 ^ k) ms)"
    using lk unfolding P_def by (rule linked_root)
  ultimately have root: "last ms = pairingRoot hf (paddedLeaves hf w txs (2 ^ k))"
    by (simp add: P_def)
  have lm: "length ms = 2 * 2 ^ k - 1" using lk by (simp add: linked_def P_def)
  have "sint (nextPowerOfTwo Log2 (of_nat (length txs))) = 2 ^ k"
    using sp by (simp add: N_def n_def P_def)
  with k nk small run lm root show ?thesis unfolding n_def by blast
qed

lemma pairLevel_head:
  "1 < length (Some x # rest) \<Longrightarrow> \<exists>y rest'. pairLevel hf (Some x # rest) = Some y # rest'"
  by (cases rest; cases "hd rest") auto

lemma pairingRoot_head_Some:
  "\<exists>r. pairingRoot hf (Some x # rest) = Some r"
proof (induction "length rest" arbitrary: x rest rule: less_induct)
  case less
  show ?case
  proof (cases rest)
    case Nil
    then show ?thesis by (simp add: pairingRoot_single)
  next
    case (Cons r rest2)
    then have long: "1 < length (Some x # rest)" by simp
    from pairLevel_head[OF long] obtain y rest' where
      pl: "pairLevel hf (Some x # rest) = Some y # rest'" by blast
    have "length (pairLevel hf (Some x # rest)) = length (Some x # rest) div 2"
      by (rule length_pairLevel)
    with pl Cons have "length rest' < length rest" by simp
    from less.hyps[OF this] obtain q where "pairingRoot hf (Some y # rest') = Some q" by blast
    with pl pairingRoot_step[OF long, of hf] show ?thesis by simp
  qed
qed

lemma paddedLeaves_Cons:
  "paddedLeaves hf w (tx # txs) P =
     Some (leafHash hf w 0 tx) # (map Some (map (\<lambda>(j, t). leafHash hf w j t) (enumerate 1 txs))
        @ replicate (P - length (tx # txs)) None)"
  by (simp add: paddedLeaves_def leafHashes_def)

lemma witness_root_exists:
  assumes ne: "txs \<noteq> []" and le: "length txs \<le> 2 ^ 62"
    and lg: "Log2_floor_at Log2 (of_nat (length txs))"
  shows "\<exists>ms root. BuildMerkleTreeStore Log2 hf txs w = Inr ms \<and> ms \<noteq> [] \<and> last ms = Some root"
proof -
  from BuildMerkleTreeStore_ok[OF ne le lg, of hf w] obtain k ms where
    run: "BuildMerkleTreeStore Log2 hf txs w = Inr ms"
    and len: "length ms = 2 * 2 ^ k - 1"
    and root: "last ms = pairingRoot hf (paddedLeaves hf w txs (2 ^ k))" by blast
  from ne obtain tx rest where "txs = tx # rest" by (cases txs) auto
  then obtain r where "pairingRoot hf (paddedLeaves hf w txs (2 ^ k)) = Some r"
    using pairingRoot_head_Some[of hf] by (auto simp only: paddedLeaves_Cons)
  moreover have "0 < length ms" unfolding len
  proof -
    have "1 \<le> (2::nat) ^ k" by simp
    then show "0 < 2 * (2::nat) ^ k - 1" by linarith
  qed
  ultimately show ?thesis using run root by auto
qed

text \<open>
  Claim C2. For no transactions the result is the one element array holding the zero
  hash. For \<open>n > 0\<close> transactions (at most \<open>2 ^ 62\<close>, with the library logarithm exact
  at \<open>n\<close>) and either witness flag, the result has \<open>2 * nextPowerOfTwo(n) - 1\<close>
  elements, \<open>nextPowerOfTwo(n)\<close> is the least power of two \<open>2 ^ k\<close> that is at least
  \<open>n\<close>, and the last element is the root of the reference pairing of the leaves padded
  with absent nodes to \<open>2 ^ k\<close>.
\<close>

theorem BuildMerkleTreeStore_root:
  "BuildMerkleTreeStore Log2 hf [] w = Inr [Some ZeroHash]
   \<and> (txs \<noteq> [] \<and> length txs \<le> 2 ^ 62 \<and> Log2_floor_at Log2 (of_nat (length txs)) \<longrightarrow>
        (\<exists>k ms. BuildMerkleTreeStore Log2 hf txs w = Inr ms
           \<and> int (length ms) = 2 * sint (nextPowerOfTwo Log2 (of_nat (length txs))) - 1
           \<and> sint (nextPowerOfTwo Log2 (of_nat (length txs))) = 2 ^ k
           \<and> length txs \<le> 2 ^ k \<and> (k = 0 \<or> 2 ^ (k - 1) < length txs)
           \<and> last ms = pairingRoot hf (paddedLeaves hf w txs (2 ^ k))))"
proof (intro conjI impI)
  show "BuildMerkleTreeStore Log2 hf [] w = Inr [Some ZeroHash]"
    by (simp add: BuildMerkleTreeStore_def)
next
  assume a: "txs \<noteq> [] \<and> length txs \<le> 2 ^ 62 \<and> Log2_floor_at Log2 (of_nat (length txs))"
  then have ne: "txs \<noteq> []" and le: "length txs \<le> 2 ^ 62"
    and lg: "Log2_floor_at Log2 (of_nat (length txs))" by simp_all
  from BuildMerkleTreeStore_ok[OF ne le lg, of hf w] obtain k ms where
    f: "length txs \<le> 2 ^ k" "k = 0 \<or> 2 ^ (k - 1) < length txs"
       "sint (nextPowerOfTwo Log2 (of_nat (length txs))) = 2 ^ k"
       "BuildMerkleTreeStore Log2 hf txs w = Inr ms"
       "length ms = 2 * 2 ^ k - 1"
       "last ms = pairingRoot hf (paddedLeaves hf w txs (2 ^ k))" by blast
  have "1 \<le> (2::nat) ^ k" by simp
  then have "int (2 * 2 ^ k - 1) = 2 * 2 ^ k - 1" by (simp add: of_nat_diff)
  with f(5) f(3) have "int (length ms) = 2 * sint (nextPowerOfTwo Log2 (of_nat (length txs))) - 1"
    by simp
  with f show "\<exists>k ms. BuildMerkleTreeStore Log2 hf txs w = Inr ms
           \<and> int (length ms) = 2 * sint (nextPowerOfTwo Log2 (of_nat (length txs))) - 1
           \<and> sint (nextPowerOfTwo Log2 (of_nat (length txs))) = 2 ^ k
           \<and> length txs \<le> 2 ^ k \<and> (k = 0 \<or> 2 ^ (k - 1) < length txs)
           \<and> last ms = pairingRoot hf (paddedLeaves hf w txs (2 ^ k))" by blast
qed

lemma ValidateWitnessCommitment_cases:
  assumes le: "length (Transactions blk) \<le> 2 ^ 62"
    and lg: "Transactions blk \<noteq> [] \<longrightarrow> Log2_floor_at Log2 (of_nat (length (Transactions blk)))"
  shows "(Transactions blk = [] \<longrightarrow>
            ValidateWitnessCommitment Log2 hf blk = Inr (Some NoTransactions))
       \<and> (\<forall>cb rest. Transactions blk = cb # rest \<and> TxIn (Tx cb) = [] \<longrightarrow>
            ValidateWitnessCommitment Log2 hf blk = Inr (Some NoInputs))
       \<and> (\<forall>cb rest txin ins. Transactions blk = cb # rest \<and> TxIn (Tx cb) = txin # ins
              \<and> PreviousOutHash txin = ZeroHash \<longrightarrow>
            ValidateWitnessCommitment Log2 hf blk = Inr (Some NoWitnessCommitment))
       \<and> (\<forall>cb rest txin ins. Transactions blk = cb # rest \<and> TxIn (Tx cb) = txin # ins
              \<and> PreviousOutHash txin \<noteq> ZeroHash \<longrightarrow>
            (\<exists>ms root. BuildMerkleTreeStore Log2 hf (Transactions blk) True = Inr ms
               \<and> last ms = Some root
               \<and> ValidateWitnessCommitment Log2 hf blk =
                   Inr (if DoubleHashH hf (Bytes root @ SignScript txin) = PreviousOutHash txin
                        then None
                        else Some (CommitmentMismatch
                                     (DoubleHashH hf (Bytes root @ SignScript txin))
                                     (PreviousOutHash txin)))))"
proof (intro conjI allI impI)
  assume "Transactions blk = []"
  then show "ValidateWitnessCommitment Log2 hf blk = Inr (Some NoTransactions)"
    by (simp add: ValidateWitnessCommitment_def)
next
  fix cb rest assume "Transactions blk = cb # rest \<and> TxIn (Tx cb) = []"
  then show "ValidateWitnessCommitment Log2 hf blk = Inr (Some NoInputs)"
    by (simp add: ValidateWitnessCommitment_def)
next
  fix cb rest txin ins
  assume "Transactions blk = cb # rest \<and> TxIn (Tx cb) = txin # ins \<and> PreviousOutHash txin = ZeroHash"
  then show "ValidateWitnessCommitment Log2 hf blk = Inr (Some NoWitnessCommitment)"
    by (simp add: ValidateWitnessCommitment_def)
next
  fix cb rest txin ins
  assume a: "Transactions blk = cb # rest \<and> TxIn (Tx cb) = txin # ins \<and> PreviousOutHash txin \<noteq> ZeroHash"
  then have ne: "Transactions blk \<noteq> []" by auto
  with lg have lg': "Log2_floor_at Log2 (of_nat (length (Transactions blk)))" by simp
  from witness_root_exists[OF ne le lg', of hf True] obtain ms root where
    r: "BuildMerkleTreeStore Log2 hf (Transactions blk) True = Inr ms" "ms \<noteq> []" "last ms = Some root"
    by blast
  have "ValidateWitnessCommitment Log2 hf blk =
      Inr (if DoubleHashH hf (Bytes root @ SignScript txin) = PreviousOutHash txin
           then None
           else Some (CommitmentMismatch (DoubleHashH hf (Bytes root @ SignScript txin))
                        (PreviousOutHash txin)))"
    using a r by (simp add: ValidateWitnessCommitment_def Let_def)
  with r show "\<exists>ms root. BuildMerkleTreeStore Log2 hf (Transactions blk) True = Inr ms
               \<and> last ms = Some root
               \<and> ValidateWitnessCommitment Log2 hf blk =
                   Inr (if DoubleHashH hf (Bytes root @ SignScript txin) = PreviousOutHash txin
                        then None
                        else Some (CommitmentMismatch
                                     (DoubleHashH hf (Bytes root @ SignScript txin))
                                     (PreviousOutHash txin)))" by blast
qed

lemma ValidateWitnessCommitment_error_iff:
  assumes le: "length (Transactions blk) \<le> 2 ^ 62"
    and lg: "Transactions blk \<noteq> [] \<longrightarrow> Log2_floor_at Log2 (of_nat (length (Transactions blk)))"
  shows "(\<exists>e. ValidateWitnessCommitment Log2 hf blk = Inr (Some e)) \<longleftrightarrow>
            (Transactions blk = []
             \<or> TxIn (Tx (hd (Transactions blk))) = []
             \<or> PreviousOutHash (hd (TxIn (Tx (hd (Transactions blk))))) = ZeroHash
             \<or> (\<exists>ms root. BuildMerkleTreeStore Log2 hf (Transactions blk) True = Inr ms
                    \<and> last ms = Some root
                    \<and> DoubleHashH hf (Bytes root
                          @ SignScript (hd (TxIn (Tx (hd (Transactions blk))))))
                        \<noteq> PreviousOutHash (hd (TxIn (Tx (hd (Transactions blk)))))))"
proof (cases "Transactions blk")
  case Nil
  then show ?thesis by (simp add: ValidateWitnessCommitment_def)
next
  case (Cons cb rest)
  show ?thesis
  proof (cases "TxIn (Tx cb)")
    case Nil
    with Cons show ?thesis by (simp add: ValidateWitnessCommitment_def)
  next
    case (Cons txin ins)
    note ins = this
    show ?thesis
    proof (cases "PreviousOutHash txin = ZeroHash")
      case True
      with \<open>Transactions blk = cb # rest\<close> ins show ?thesis
        by (simp add: ValidateWitnessCommitment_def)
    next
      case False
      from ValidateWitnessCommitment_cases[OF le lg, of hf]
        \<open>Transactions blk = cb # rest\<close> ins False
      obtain ms root where
        r: "BuildMerkleTreeStore Log2 hf (Transactions blk) True = Inr ms" "last ms = Some root"
           "ValidateWitnessCommitment Log2 hf blk =
              Inr (if DoubleHashH hf (Bytes root @ SignScript txin) = PreviousOutHash txin
                   then None
                   else Some (CommitmentMismatch
                                (DoubleHashH hf (Bytes root @ SignScript txin))
                                (PreviousOutHash txin)))"
        by blast
      show ?thesis
        using r False \<open>Transactions blk = cb # rest\<close> ins by auto
    qed
  qed
qed

text \<open>
  Claim C3. \<open>ValidateWitnessCommitment\<close> returns the first error for a block without
  transactions, the second for a coinbase without inputs, the third when the commitment
  embedded in the first input of the coinbase is the zero hash; otherwise the witness-mode
  tree has a root, and the result is nil when the hash of the root followed by the
  signature script equals the embedded commitment, and the mismatch error carrying the
  computed and the embedded commitment when it differs. These four are the only errors.
\<close>

theorem ValidateWitnessCommitment_errors:
  assumes le: "length (Transactions blk) \<le> 2 ^ 62"
    and lg: "Transactions blk \<noteq> [] \<longrightarrow> Log2_floor_at Log2 (of_nat (length (Transactions blk)))"
  shows "(Transactions blk = [] \<longrightarrow>
            ValidateWitnessCommitment Log2 hf blk = Inr (Some NoTransactions))
       \<and> (\<forall>cb rest. Transactions blk = cb # rest \<and> TxIn (Tx cb) = [] \<longrightarrow>
            ValidateWitnessCommitment Log2 hf blk = Inr (Some NoInputs))
       \<and> (\<forall>cb rest txin ins. Transactions blk = cb # rest \<and> TxIn (Tx cb) = txin # ins
              \<and> PreviousOutHash txin = ZeroHash \<longrightarrow>
            ValidateWitnessCommitment Log2 hf blk = Inr (Some NoWitnessCommitment))
       \<and> (\<forall>cb rest txin ins. Transactions blk = cb # rest \<and> TxIn (Tx cb) = txin # ins
              \<and> PreviousOutHash txin \<noteq> ZeroHash \<longrightarrow>
            (\<exists>ms root. BuildMerkleTreeStore Log2 hf (Transactions blk) True = Inr ms
               \<and> last ms = Some root
               \<and> ValidateWitnessCommitment Log2 hf blk =
                   Inr (if DoubleHashH hf (Bytes root @ SignScript txin) = PreviousOutHash txin
                        then None
                        else Some (CommitmentMismatch
                                     (DoubleHashH hf (Bytes root @ SignScript txin))
                                     (PreviousOutHash txin)))))
       \<and> ((\<exists>e. ValidateWitnessCommitment Log2 hf blk = Inr (Some e)) \<longleftrightarrow>
            (Transactions blk = []
             \<or> TxIn (Tx (hd (Transactions blk))) = []
             \<or> PreviousOutHash (hd (TxIn (Tx (hd (Transactions blk))))) = ZeroHash
             \<or> (\<exists>ms root. BuildMerkleTreeStore Log2 hf (Transactions blk) True = Inr ms
                    \<and> last ms = Some root
                    \<and> DoubleHashH hf (Bytes root
                          @ SignScript (hd (TxIn (Tx (hd (Transactions blk))))))
                        \<noteq> PreviousOutHash (hd (TxIn (Tx (hd (Transactions blk))))))))"
proof -
  note c = ValidateWitnessCommitment_cases[OF le lg, of hf]
  note i = ValidateWitnessCommitment_error_iff[OF le lg, of hf]
  show ?thesis
    apply (intro conjI)
        apply (rule c[THEN conjunct1])
       apply (rule c[THEN conjunct2, THEN conjunct1])
      apply (rule c[THEN conjunct2, THEN conjunct2, THEN conjunct1])
     apply (rule c[THEN conjunct2, THEN conjunct2, THEN conjunct2])
    apply (rule i)
    done
qed

lemma hf0_hd: "hd (Bytes (DoubleHashH hf0 (xs @ [b]))) = b"
  by (simp add: hf0_def array32_def HashSize_def)

lemma hd_ZeroHash: "hd (Bytes ZeroHash) = 0"
  by (simp add: ZeroHash_def HashSize_def hd_replicate)

lemma hd_h1: "hd (Bytes h1) = 1"
  by (simp add: h1_def hd_replicate)

lemma hf0_not_zero: "DoubleHashH hf0 (xs @ [9]) \<noteq> ZeroHash"
  using hf0_hd[of xs 9] hd_ZeroHash by auto

lemma hf0_not_h1: "DoubleHashH hf0 (xs @ [9]) \<noteq> h1"
  using hf0_hd[of xs 9] hd_h1 by auto

lemma Log2_exact_small:
  "Log2_floor_at Log2_exact 1" "Log2_floor_at Log2_exact 2" "Log2_floor_at Log2_exact 3"
  by (simp_all add: Log2_floor_at_def Log2_exact_def ilog2.simps)

theorem single_transaction_witness_root_witness:
  "Transactions (blockOf [coinbaseTx h1]) = [coinbaseTx h1]
   \<and> BuildMerkleTreeStore Log2_exact hf0 (Transactions (blockOf [coinbaseTx h1])) True
       = Inr [Some ZeroHash]
   \<and> PreviousOutHash \<lparr>PreviousOutHash = h1, SignScript = [9]\<rparr> \<noteq> ZeroHash
   \<and> ValidateWitnessCommitment Log2_exact hf0 (blockOf [coinbaseTx h1])
       = Inr (Some (CommitmentMismatch (DoubleHashH hf0 (Bytes ZeroHash @ [9])) h1))"
proof -
  have t: "Transactions (blockOf [coinbaseTx h1]) = [coinbaseTx h1]" by (simp add: blockOf_def)
  note th = single_transaction_witness_root [OF t, of Log2_exact hf0]
  have i: "TxIn (Tx (coinbaseTx h1)) = \<lparr>PreviousOutHash = h1, SignScript = [9]\<rparr> # []"
    by (simp add: coinbaseTx_def)
  have z: "PreviousOutHash \<lparr>PreviousOutHash = h1, SignScript = [9]\<rparr> \<noteq> ZeroHash"
    using hd_h1 hd_ZeroHash by auto
  from th i z have "ValidateWitnessCommitment Log2_exact hf0 (blockOf [coinbaseTx h1]) =
      Inr (if DoubleHashH hf0 (Bytes ZeroHash @ SignScript \<lparr>PreviousOutHash = h1, SignScript = [9]\<rparr>)
              = PreviousOutHash \<lparr>PreviousOutHash = h1, SignScript = [9]\<rparr>
           then None
           else Some (CommitmentMismatch
                  (DoubleHashH hf0 (Bytes ZeroHash @ SignScript \<lparr>PreviousOutHash = h1, SignScript = [9]\<rparr>))
                  (PreviousOutHash \<lparr>PreviousOutHash = h1, SignScript = [9]\<rparr>)))"
    by blast
  then have "ValidateWitnessCommitment Log2_exact hf0 (blockOf [coinbaseTx h1])
       = Inr (Some (CommitmentMismatch (DoubleHashH hf0 (Bytes ZeroHash @ [9])) h1))"
    using hf0_not_h1[of "Bytes ZeroHash"] by simp
  with th t z show ?thesis by simp
qed

lemma pow2_eq_4: "(2::int) ^ k = 4 \<Longrightarrow> k = 2"
proof -
  assume "(2::int) ^ k = 4"
  then have "(2::int) ^ k = 2 ^ 2" by simp
  then show "k = 2" by (simp only: power_inject_exp[of 2]) 
qed

lemma three_leaves_root:
  "pairingRoot hf (paddedLeaves hf False [a, b, c] (2 ^ 2)) =
     Some (HashMerkleBranches hf
             (HashMerkleBranches hf (TxHash hf (Tx a)) (TxHash hf (Tx b)))
             (HashMerkleBranches hf (TxHash hf (Tx c)) (TxHash hf (Tx c))))"
  by (simp add: paddedLeaves_def leafHashes_def leafHash_def pairingRoot.simps)

theorem BuildMerkleTreeStore_root_witness:
  "[payTx 1, payTx 2, payTx 3] \<noteq> [] \<and> length [payTx 1, payTx 2, payTx 3] \<le> 2 ^ 62
   \<and> Log2_floor_at Log2_exact (of_nat (length [payTx 1, payTx 2, payTx 3]))
   \<and> (\<exists>ms. BuildMerkleTreeStore Log2_exact hf0 [payTx 1, payTx 2, payTx 3] False = Inr ms
          \<and> length ms = 7
          \<and> last ms =
              Some (HashMerkleBranches hf0
                      (HashMerkleBranches hf0 (TxHash hf0 (Tx (payTx 1))) (TxHash hf0 (Tx (payTx 2))))
                      (HashMerkleBranches hf0 (TxHash hf0 (Tx (payTx 3))) (TxHash hf0 (Tx (payTx 3))))))"
proof -
  let ?txs = "[payTx 1, payTx 2, payTx 3]"
  have h: "?txs \<noteq> [] \<and> length ?txs \<le> 2 ^ 62 \<and> Log2_floor_at Log2_exact (of_nat (length ?txs))"
    using Log2_exact_small(3) by simp
  have n: "nextPowerOfTwo Log2_exact (of_nat (length ?txs)) = 4"
    by (simp add: nextPowerOfTwo_def Log2_exact_def ilog2.simps)
  from h BuildMerkleTreeStore_root [of Log2_exact hf0 False ?txs] obtain k ms where
    r: "BuildMerkleTreeStore Log2_exact hf0 ?txs False = Inr ms"
       "int (length ms) = 2 * sint (nextPowerOfTwo Log2_exact (of_nat (length ?txs))) - 1"
       "sint (nextPowerOfTwo Log2_exact (of_nat (length ?txs))) = 2 ^ k"
       "last ms = pairingRoot hf0 (paddedLeaves hf0 False ?txs (2 ^ k))"
    by blast
  from r(3) have "k = 2" unfolding n by (intro pow2_eq_4) simp
  with r(4) have root: "last ms = Some (HashMerkleBranches hf0
                      (HashMerkleBranches hf0 (TxHash hf0 (Tx (payTx 1))) (TxHash hf0 (Tx (payTx 2))))
                      (HashMerkleBranches hf0 (TxHash hf0 (Tx (payTx 3))) (TxHash hf0 (Tx (payTx 3)))))"
    by (simp only: three_leaves_root)
  from r(2) have "length ms = 7" unfolding n by simp
  with r(1) root h show ?thesis by blast
qed

lemma two_tx_tree:
  "BuildMerkleTreeStore Log2 hf0 [coinbaseTx c, payTx 2] True =
     Inr [Some ZeroHash, Some (TxHashFull hf0 (Tx (payTx 2))), Some witnessRoot2]"
proof -
  have "nextPowerOfTwo Log2 (of_nat (length [coinbaseTx c, payTx 2])) = 2"
    by (simp add: nextPowerOfTwo_def)
  then show ?thesis
    by (simp add: BuildMerkleTreeStore_def Let_def leafHash_def buildLevels.simps inRange_def
        witnessRoot2_def numeral_3_eq_3)
qed

theorem ValidateWitnessCommitment_errors_witness:
  "length (Transactions (blockOf [coinbaseTx h1, payTx 2])) \<le> 2 ^ 62
   \<and> Log2_floor_at Log2_exact (of_nat (length (Transactions (blockOf [coinbaseTx h1, payTx 2]))))
   \<and> ValidateWitnessCommitment Log2_exact hf0 (blockOf [coinbaseTx h1, payTx 2])
       = Inr (Some (CommitmentMismatch goodCommitment h1))
   \<and> ValidateWitnessCommitment Log2_exact hf0 (blockOf [coinbaseTx goodCommitment, payTx 2])
       = Inr None
   \<and> ValidateWitnessCommitment Log2_exact hf0 (blockOf [coinbaseTx ZeroHash, payTx 2])
       = Inr (Some NoWitnessCommitment)
   \<and> ValidateWitnessCommitment Log2_exact hf0 (blockOf [payTx 2]) = Inr (Some NoInputs)
   \<and> ValidateWitnessCommitment Log2_exact hf0 (blockOf []) = Inr (Some NoTransactions)"
proof -
  have g2: "Transactions (blockOf [x, y]) \<noteq> [] \<longrightarrow>
        Log2_floor_at Log2_exact (of_nat (length (Transactions (blockOf [x, y]))))" for x y
    using Log2_exact_small(2) by (simp add: blockOf_def)
  have g1: "Transactions (blockOf [x]) \<noteq> [] \<longrightarrow>
        Log2_floor_at Log2_exact (of_nat (length (Transactions (blockOf [x]))))" for x
    using Log2_exact_small(1) by (simp add: blockOf_def)
  have g0: "Transactions (blockOf []) \<noteq> [] \<longrightarrow>
        Log2_floor_at Log2_exact (of_nat (length (Transactions (blockOf []))))"
    by (simp add: blockOf_def)
  have tree: "BuildMerkleTreeStore Log2_exact hf0 (Transactions (blockOf [coinbaseTx c, payTx 2])) True =
     Inr [Some ZeroHash, Some (TxHashFull hf0 (Tx (payTx 2))), Some witnessRoot2]" for c
    by (simp add: blockOf_def two_tx_tree)
  have shape: "Transactions (blockOf [coinbaseTx c, payTx 2]) = coinbaseTx c # [payTx 2]
      \<and> TxIn (Tx (coinbaseTx c)) = \<lparr>PreviousOutHash = c, SignScript = [9]\<rparr> # []" for c
    by (simp add: blockOf_def coinbaseTx_def)
  have nz1: "h1 \<noteq> ZeroHash" using hd_h1 hd_ZeroHash by auto
  have nzg: "goodCommitment \<noteq> ZeroHash" unfolding goodCommitment_def by (rule hf0_not_zero)
  have ng1: "goodCommitment \<noteq> h1" unfolding goodCommitment_def by (rule hf0_not_h1)
  have lA: "length (Transactions (blockOf [x, y])) \<le> 2 ^ 62" for x y
    by (simp add: blockOf_def)
  have lD: "length (Transactions (blockOf [x])) \<le> 2 ^ 62" for x
    by (simp add: blockOf_def)
  have lE: "length (Transactions (blockOf [])) \<le> 2 ^ 62"
    by (simp add: blockOf_def)
  note A = ValidateWitnessCommitment_errors
    [of "blockOf [coinbaseTx h1, payTx 2]" Log2_exact hf0, OF lA g2]
  note B = ValidateWitnessCommitment_errors
    [of "blockOf [coinbaseTx goodCommitment, payTx 2]" Log2_exact hf0,
     OF lA g2]
  note C = ValidateWitnessCommitment_errors
    [of "blockOf [coinbaseTx ZeroHash, payTx 2]" Log2_exact hf0,
     OF lA g2]
  note D = ValidateWitnessCommitment_errors
    [of "blockOf [payTx 2]" Log2_exact hf0, OF lD g1]
  note E = ValidateWitnessCommitment_errors
    [of "blockOf []" Log2_exact hf0, OF lE g0]
  have sel: "PreviousOutHash \<lparr>PreviousOutHash = c, SignScript = [9]\<rparr> = c"
    "SignScript \<lparr>PreviousOutHash = c, SignScript = [9]\<rparr> = [9]" for c
    by simp_all
  have a: "ValidateWitnessCommitment Log2_exact hf0 (blockOf [coinbaseTx h1, payTx 2])
       = Inr (Some (CommitmentMismatch goodCommitment h1))"
  proof -
    have "PreviousOutHash \<lparr>PreviousOutHash = h1, SignScript = [9]\<rparr> \<noteq> ZeroHash"
      using nz1 by simp
    with A shape[of h1] obtain ms root where
      "BuildMerkleTreeStore Log2_exact hf0 (Transactions (blockOf [coinbaseTx h1, payTx 2])) True = Inr ms"
      "last ms = Some root"
      "ValidateWitnessCommitment Log2_exact hf0 (blockOf [coinbaseTx h1, payTx 2]) =
         Inr (if DoubleHashH hf0 (Bytes root @ SignScript \<lparr>PreviousOutHash = h1, SignScript = [9]\<rparr>)
                  = PreviousOutHash \<lparr>PreviousOutHash = h1, SignScript = [9]\<rparr> then None
              else Some (CommitmentMismatch
                    (DoubleHashH hf0 (Bytes root @ SignScript \<lparr>PreviousOutHash = h1, SignScript = [9]\<rparr>))
                    (PreviousOutHash \<lparr>PreviousOutHash = h1, SignScript = [9]\<rparr>)))"
      by blast
    note r = this
    from r(1) tree[of h1]
    have "ms = [Some ZeroHash, Some (TxHashFull hf0 (Tx (payTx 2))), Some witnessRoot2]"
      by simp
    with r(2) have "root = witnessRoot2" by simp
    with r(3) ng1 show ?thesis by (simp add: goodCommitment_def)
  qed
  have b: "ValidateWitnessCommitment Log2_exact hf0 (blockOf [coinbaseTx goodCommitment, payTx 2])
       = Inr None"
  proof -
    have "PreviousOutHash \<lparr>PreviousOutHash = goodCommitment, SignScript = [9]\<rparr> \<noteq> ZeroHash"
      using nzg by simp
    with B shape[of goodCommitment] obtain ms root where
      "BuildMerkleTreeStore Log2_exact hf0 (Transactions (blockOf [coinbaseTx goodCommitment, payTx 2])) True = Inr ms"
      "last ms = Some root"
      "ValidateWitnessCommitment Log2_exact hf0 (blockOf [coinbaseTx goodCommitment, payTx 2]) =
         Inr (if DoubleHashH hf0 (Bytes root @ SignScript \<lparr>PreviousOutHash = goodCommitment, SignScript = [9]\<rparr>)
                  = PreviousOutHash \<lparr>PreviousOutHash = goodCommitment, SignScript = [9]\<rparr> then None
              else Some (CommitmentMismatch
                    (DoubleHashH hf0 (Bytes root @ SignScript \<lparr>PreviousOutHash = goodCommitment, SignScript = [9]\<rparr>))
                    (PreviousOutHash \<lparr>PreviousOutHash = goodCommitment, SignScript = [9]\<rparr>)))"
      by blast
    note r = this
    from r(1) tree[of goodCommitment]
    have "ms = [Some ZeroHash, Some (TxHashFull hf0 (Tx (payTx 2))), Some witnessRoot2]"
      by simp
    with r(2) have "root = witnessRoot2" by simp
    with r(3) show ?thesis by (simp add: goodCommitment_def)
  qed
  have c: "ValidateWitnessCommitment Log2_exact hf0 (blockOf [coinbaseTx ZeroHash, payTx 2])
       = Inr (Some NoWitnessCommitment)"
    using C shape[of ZeroHash] sel[of ZeroHash] by blast
  have d: "ValidateWitnessCommitment Log2_exact hf0 (blockOf [payTx 2]) = Inr (Some NoInputs)"
    using D by (simp add: blockOf_def payTx_def)
  have e: "ValidateWitnessCommitment Log2_exact hf0 (blockOf []) = Inr (Some NoTransactions)"
    using E by (simp add: blockOf_def)
  from a b c d e lA[of "coinbaseTx h1" "payTx 2"] g2[of "coinbaseTx h1" "payTx 2"]
  show ?thesis by (simp add: blockOf_def)
qed

end
